theory Spec2Isabelle
  imports Main
begin

section \<open>Python values the board is built from\<close>

text \<open>
  The program is one Python class, \<^verbatim>\<open>Board\<close> (\<^verbatim>\<open>src/board.py\<close>). Its integers are
  unbounded (\<open>int\<close>), its cells are strings, and every subscript can raise. The
  exceptions the code can raise are values of \<open>error\<close>.
\<close>

datatype error = IndexError | ValueError | ZeroDivisionError | CircuitError

text \<open>
  \<^verbatim>\<open>xs[i]\<close> on a sequence of length \<open>n\<close>: a negative index counts from the end, an
  index outside \<open>[-n, n)\<close> raises \<^verbatim>\<open>IndexError\<close>. The result is the position read.
\<close>

definition py_index :: "nat \<Rightarrow> int \<Rightarrow> error + nat" where
  "py_index n i =
     (if - int n \<le> i \<and> i < int n
      then Inr (nat (if i < 0 then i + int n else i))
      else Inl IndexError)"

text \<open>\<^verbatim>\<open>range(a, b, s)\<close>: a zero step raises \<^verbatim>\<open>ValueError\<close>.\<close>

definition py_range :: "int \<Rightarrow> int \<Rightarrow> int \<Rightarrow> error + int list" where
  "py_range a b s =
     (if s = 0 then Inl ValueError
      else if 0 < s
      then Inr (map (\<lambda>k. a + int k * s) [0..<nat ((b - a + s - 1) div s)])
      else Inr (map (\<lambda>k. a + int k * s) [0..<nat ((a - b - s - 1) div (- s))]))"

text \<open>\<^verbatim>\<open>range(n)\<close>, which cannot fail.\<close>

definition py_range1 :: "int \<Rightarrow> int list" where
  "py_range1 n = map int [0..<nat n]"

text \<open>A list comprehension whose element expression can raise: the first error wins.\<close>

fun collect :: "('a \<Rightarrow> error + 'b) \<Rightarrow> 'a list \<Rightarrow> error + 'b list" where
  "collect f [] = Inr []"
| "collect f (x # xs) =
     (case f x of
        Inl e \<Rightarrow> Inl e
      | Inr y \<Rightarrow> (case collect f xs of Inl e \<Rightarrow> Inl e | Inr ys \<Rightarrow> Inr (y # ys)))"

text \<open>
  \<^verbatim>\<open>all(p(x) for x in xs)\<close> and \<^verbatim>\<open>any(p(x) for x in xs)\<close> over a generator: they
  stop at the first deciding element, so an element behind it is never evaluated and
  cannot raise.
\<close>

fun all_gen :: "('a \<Rightarrow> error + bool) \<Rightarrow> 'a list \<Rightarrow> error + bool" where
  "all_gen p [] = Inr True"
| "all_gen p (x # xs) =
     (case p x of
        Inl e \<Rightarrow> Inl e
      | Inr t \<Rightarrow> (if t then all_gen p xs else Inr False))"

fun any_gen :: "('a \<Rightarrow> error + bool) \<Rightarrow> 'a list \<Rightarrow> error + bool" where
  "any_gen p [] = Inr False"
| "any_gen p (x # xs) =
     (case p x of
        Inl e \<Rightarrow> Inl e
      | Inr t \<Rightarrow> (if t then Inr True else any_gen p xs))"

text \<open>\<^verbatim>\<open>s.endswith('?')\<close>.\<close>

definition endswith_q :: "string \<Rightarrow> bool" where
  "endswith_q s = (s \<noteq> [] \<and> last s = CHR ''?'')"

section \<open>The board\<close>

text \<open>
  The circuit is owned by the external simulator library; the board only appends
  instructions to it. It is kept as the log of the instructions appended, each naming the
  qubits it acts on by their position in the register.
\<close>

datatype gate =
    GReset | GBarrier | GMeasure
  | GX nat | GId nat | GH nat
  | GSwap nat nat | GCX nat nat | GCCX nat nat nat

record board =
  size_b :: int
  entanglement_count :: int
  cells :: "string list list"
  circuit :: "gate list"
  winning_lines :: "int list list"

text \<open>What \<^verbatim>\<open>check_win\<close> returns: a string, an integer or \<^verbatim>\<open>None\<close>.\<close>

datatype py_value = PStr string | PInt int | PNone

subsection \<open>Construction\<close>

text \<open>
  Lines 26 to 28: the three parts of \<^verbatim>\<open>winning_lines\<close>, in the order of the source.
\<close>

definition winning_lines_of :: "int \<Rightarrow> error + int list list" where
  "winning_lines_of n =
     (case collect (\<lambda>i. py_range i (n * n) n) (py_range1 n) of
        Inl e \<Rightarrow> Inl e
      | Inr first \<Rightarrow>
     (case collect (\<lambda>i. py_range (i * n) ((i + 1) * n) 1) (py_range1 n) of
        Inl e \<Rightarrow> Inl e
      | Inr second \<Rightarrow>
     (case py_range 0 (n * n) (n + 1) of
        Inl e \<Rightarrow> Inl e
      | Inr diag \<Rightarrow>
     (case py_range (n - 1) (n * n - 1) (n - 1) of
        Inl e \<Rightarrow> Inl e
      | Inr anti \<Rightarrow> Inr (first @ second @ [diag, anti])))))"

text \<open>
  \<^verbatim>\<open>Board.__init__\<close>. The simulator and the two registers of \<open>size\<^sup>2\<close> bits are objects
  of the library, created before the winning lines are computed; their creation is not
  part of the model. The circuit starts with the reset of all qubits and a barrier.
\<close>

definition init_board :: "int \<Rightarrow> error + board" where
  "init_board n =
     (case winning_lines_of n of
        Inl e \<Rightarrow> Inl e
      | Inr ls \<Rightarrow>
          Inr \<lparr> size_b = n, entanglement_count = 0,
                cells = replicate (nat n) (replicate (nat n) '' ''),
                circuit = [GReset, GBarrier],
                winning_lines = ls \<rparr>)"

subsection \<open>Reading and writing cells\<close>

text \<open>\<^verbatim>\<open>self.cells[row][col]\<close> as an expression.\<close>

definition get_cell :: "string list list \<Rightarrow> int \<Rightarrow> int \<Rightarrow> error + string" where
  "get_cell cs row col =
     (case py_index (length cs) row of
        Inl e \<Rightarrow> Inl e
      | Inr r \<Rightarrow>
     (case py_index (length (cs ! r)) col of
        Inl e \<Rightarrow> Inl e
      | Inr c \<Rightarrow> Inr (cs ! r ! c)))"

text \<open>\<^verbatim>\<open>self.cells[row][col] = v\<close>.\<close>

definition set_cell :: "string list list \<Rightarrow> int \<Rightarrow> int \<Rightarrow> string \<Rightarrow> error + string list list" where
  "set_cell cs row col v =
     (case py_index (length cs) row of
        Inl e \<Rightarrow> Inl e
      | Inr r \<Rightarrow>
     (case py_index (length (cs ! r)) col of
        Inl e \<Rightarrow> Inl e
      | Inr c \<Rightarrow> Inr (cs[r := (cs ! r)[c := v]])))"

text \<open>\<^verbatim>\<open>self.cells[i // self.size][i % self.size]\<close>.\<close>

definition cell_at :: "board \<Rightarrow> int \<Rightarrow> error + string" where
  "cell_at b i =
     (if size_b b = 0 then Inl ZeroDivisionError
      else get_cell (cells b) (i div size_b b) (i mod size_b b))"

text \<open>
  \<^verbatim>\<open>self.qubits[index]\<close>: the register is the library's. It holds \<open>size\<^sup>2\<close> qubits
  and is taken to be subscripted like a Python list: a negative index counts from the end,
  an index outside the register raises.
\<close>

definition qubit :: "board \<Rightarrow> int \<Rightarrow> error + nat" where
  "qubit b index = py_index (nat (size_b b * size_b b)) index"

text \<open>
  Appending an instruction (\<^verbatim>\<open>self.circuit.x(q)\<close>, \<^verbatim>\<open>self.circuit.cx(p, q)\<close>, ...).
  The library is taken to refuse an instruction that names one qubit twice.
\<close>

fun gate_qubits :: "gate \<Rightarrow> nat list" where
  "gate_qubits (GX q) = [q]"
| "gate_qubits (GId q) = [q]"
| "gate_qubits (GH q) = [q]"
| "gate_qubits (GSwap p q) = [p, q]"
| "gate_qubits (GCX p q) = [p, q]"
| "gate_qubits (GCCX p q r) = [p, q, r]"
| "gate_qubits g = []"

definition append_gate :: "gate \<Rightarrow> board \<Rightarrow> error + board" where
  "append_gate g b =
     (if distinct (gate_qubits g) then Inr (b\<lparr>circuit := circuit b @ [g]\<rparr>)
      else Inl CircuitError)"

subsection \<open>Moves\<close>

text \<open>
  A method that mutates the board returns what the call produced (a value or the
  exception raised) together with the board as the call left it.
\<close>

definition make_classical_move :: "board \<Rightarrow> int \<Rightarrow> int \<Rightarrow> string \<Rightarrow> (error + bool) \<times> board" where
  "make_classical_move b row col player_mark =
     (case get_cell (cells b) row col of
        Inl e \<Rightarrow> (Inl e, b)
      | Inr c \<Rightarrow>
          if c = '' '' then
            (case set_cell (cells b) row col player_mark of
               Inl e \<Rightarrow> (Inl e, b)
             | Inr cs \<Rightarrow>
                 let b1 = b\<lparr>cells := cs\<rparr>;
                     index = row * size_b b + col
                 in (case qubit b1 index of
                       Inl e \<Rightarrow> (Inl e, b1)
                     | Inr q \<Rightarrow>
                         (case append_gate (if player_mark = ''X'' then GX q else GId q) b1 of
                            Inl e \<Rightarrow> (Inl e, b1)
                          | Inr b2 \<Rightarrow> (Inr True, b2))))
          else (Inr False, b))"

definition make_swap_move :: "board \<Rightarrow> int \<Rightarrow> int \<Rightarrow> int \<Rightarrow> int \<Rightarrow> (error + bool) \<times> board" where
  "make_swap_move b row1 col1 row2 col2 =
     (case get_cell (cells b) row1 col1 of
        Inl e \<Rightarrow> (Inl e, b)
      | Inr c1 \<Rightarrow>
          if c1 = '' '' then (Inr False, b)
          else
     (case get_cell (cells b) row2 col2 of
        Inl e \<Rightarrow> (Inl e, b)
      | Inr c2 \<Rightarrow>
          if c2 = '' '' then (Inr False, b)
          else
     (case qubit b (row1 * size_b b + col1) of
        Inl e \<Rightarrow> (Inl e, b)
      | Inr q1 \<Rightarrow>
     (case qubit b (row2 * size_b b + col2) of
        Inl e \<Rightarrow> (Inl e, b)
      | Inr q2 \<Rightarrow>
     (case append_gate (GSwap q1 q2) b of
        Inl e \<Rightarrow> (Inl e, b)
      | Inr b1 \<Rightarrow>
     (case set_cell (cells b1) row1 col1 c2 of
        Inl e \<Rightarrow> (Inl e, b1)
      | Inr cs1 \<Rightarrow>
     (case set_cell cs1 row2 col2 c1 of
        Inl e \<Rightarrow> (Inl e, b1\<lparr>cells := cs1\<rparr>)
      | Inr cs2 \<Rightarrow> (Inr True, b1\<lparr>cells := cs2\<rparr>))))))))"

text \<open>
  Lines 77 to 83: the instructions of an entangling move, appended one after the other,
  each looking its qubits up first.
\<close>

definition entangle_gates :: "board \<Rightarrow> int list \<Rightarrow> (error option) \<times> board" where
  "entangle_gates b indices =
     (case qubit b (indices ! 0) of
        Inl e \<Rightarrow> (Some e, b)
      | Inr q0 \<Rightarrow>
     (case append_gate (GH q0) b of
        Inl e \<Rightarrow> (Some e, b)
      | Inr b1 \<Rightarrow>
     (case qubit b1 (indices ! 1) of
        Inl e \<Rightarrow> (Some e, b1)
      | Inr q1 \<Rightarrow>
     (case append_gate (GCX q0 q1) b1 of
        Inl e \<Rightarrow> (Some e, b1)
      | Inr b2 \<Rightarrow>
          if length indices = 2 then (None, b2)
          else
     (case qubit b2 (indices ! 2) of
        Inl e \<Rightarrow> (Some e, b2)
      | Inr q2 \<Rightarrow>
     (case append_gate (GCCX q0 q1 q2) b2 of
        Inl e \<Rightarrow> (Some e, b2)
      | Inr b3 \<Rightarrow> (None, b3)))))))"

text \<open>Line 85: \<^verbatim>\<open>for row, col in positions: self.cells[row][col] = player_mark + '?'\<close>.\<close>

fun mark_cells :: "(int \<times> int) list \<Rightarrow> string \<Rightarrow> string list list \<Rightarrow> (error option) \<times> string list list" where
  "mark_cells [] v cs = (None, cs)"
| "mark_cells ((row, col) # ps) v cs =
     (case set_cell cs row col v of
        Inl e \<Rightarrow> (Some e, cs)
      | Inr cs' \<Rightarrow> mark_cells ps v cs')"

definition make_entangled_move :: "board \<Rightarrow> (int \<times> int) list \<Rightarrow> string \<Rightarrow> (error + bool) \<times> board" where
  "make_entangled_move b positions player_mark =
     (if length positions \<notin> set [2, 3] then (Inr False, b)
      else
     (case any_gen (\<lambda>(row, col). map_sum id (\<lambda>c. c \<noteq> '' '') (get_cell (cells b) row col)) positions of
        Inl e \<Rightarrow> (Inl e, b)
      | Inr occupied \<Rightarrow>
          if occupied then (Inr False, b)
          else if card (set positions) \<noteq> length positions then (Inr False, b)
          else
     (case entangle_gates b (map (\<lambda>(row, col). row * size_b b + col) positions) of
        (Some e, b1) \<Rightarrow> (Inl e, b1)
      | (None, b1) \<Rightarrow>
     (case mark_cells positions (player_mark @ ''?'') (cells b1) of
        (Some e, cs) \<Rightarrow> (Inl e, b1\<lparr>cells := cs\<rparr>)
      | (None, cs) \<Rightarrow>
          (Inr True, b1\<lparr>cells := cs, entanglement_count := entanglement_count b1 + 1\<rparr>)))))"

subsection \<open>Collapse\<close>

definition can_be_collapsed :: "board \<Rightarrow> error + bool" where
  "can_be_collapsed b =
     (if entanglement_count b \<ge> 3 then
        any_gen (\<lambda>line. all_gen (\<lambda>i. map_sum id endswith_q (cell_at b i)) line)
          (winning_lines b)
      else Inr False)"

text \<open>
  \<^verbatim>\<open>max(counts, key=counts.get)\<close>: the keys are visited in the dictionary's order and a
  later key replaces the best one only when its count is strictly larger; an empty
  dictionary raises \<^verbatim>\<open>ValueError\<close>. The dictionary is the list of its items.
\<close>

fun max_from :: "string \<times> nat \<Rightarrow> (string \<times> nat) list \<Rightarrow> string \<times> nat" where
  "max_from best [] = best"
| "max_from best (kw # rest) = max_from (if snd best < snd kw then kw else best) rest"

definition max_state_of :: "(string \<times> nat) list \<Rightarrow> error + string" where
  "max_state_of counts =
     (case counts of
        [] \<Rightarrow> Inl ValueError
      | kw # rest \<Rightarrow> Inr (rev (fst (max_from kw rest))))"

text \<open>Lines 113 to 115: the body of the loop over the cell indices.\<close>

definition collapse_cell :: "string \<Rightarrow> board \<Rightarrow> int \<Rightarrow> (error option) \<times> board" where
  "collapse_cell max_state b i =
     (if size_b b = 0 then (Some ZeroDivisionError, b)
      else
        let row = i div size_b b; col = i mod size_b b in
        (case get_cell (cells b) row col of
           Inl e \<Rightarrow> (Some e, b)
         | Inr c \<Rightarrow>
             if endswith_q c then
               (case py_index (length max_state) i of
                  Inl e \<Rightarrow> (Some e, b)
                | Inr k \<Rightarrow>
                    (case set_cell (cells b) row col
                            (if max_state ! k = CHR ''1'' then ''X'' else ''O'') of
                       Inl e \<Rightarrow> (Some e, b)
                     | Inr cs \<Rightarrow> (None, b\<lparr>cells := cs\<rparr>)))
             else (None, b)))"

fun collapse_loop :: "string \<Rightarrow> int list \<Rightarrow> board \<Rightarrow> (error option) \<times> board" where
  "collapse_loop max_state [] b = (None, b)"
| "collapse_loop max_state (i # is) b =
     (case collapse_cell max_state b i of
        (Some e, b') \<Rightarrow> (Some e, b')
      | (None, b') \<Rightarrow> collapse_loop max_state is b')"

text \<open>
  \<^verbatim>\<open>collapse_board\<close>. Transpiling and running the circuit happen in the simulator; what
  the board receives from it is the dictionary \<^verbatim>\<open>counts\<close> (outcome string to number of
  shots), which is the second argument here.
\<close>

definition collapse_board :: "board \<Rightarrow> (string \<times> nat) list \<Rightarrow> (error + (string \<times> nat) list) \<times> board" where
  "collapse_board b counts =
     (let b1 = b\<lparr>circuit := circuit b @ [GBarrier, GMeasure]\<rparr> in
      (case max_state_of counts of
         Inl e \<Rightarrow> (Inl e, b1)
       | Inr max_state \<Rightarrow>
           (case collapse_loop max_state (py_range1 (size_b b1 * size_b b1)) b1 of
              (Some e, b2) \<Rightarrow> (Inl e, b2)
            | (None, b2) \<Rightarrow> (Inr counts, b2\<lparr>entanglement_count := 0\<rparr>))))"

subsection \<open>Win and draw\<close>

text \<open>Lines 124 to 126: one round of the loop over the winning lines.\<close>

definition line_winner :: "board \<Rightarrow> int list \<Rightarrow> error + string option" where
  "line_winner b line =
     (case py_index (length line) 0 of
        Inl e \<Rightarrow> Inl e
      | Inr k \<Rightarrow>
     (case cell_at b (line ! k) of
        Inl e \<Rightarrow> Inl e
      | Inr first_cell \<Rightarrow>
     (case all_gen (\<lambda>i. map_sum id (\<lambda>c. c = first_cell) (cell_at b i)) line of
        Inl e \<Rightarrow> Inl e
      | Inr is_same \<Rightarrow>
          Inr (if is_same \<and> first_cell \<notin> set ['' '', ''X?'', ''O?'']
               then Some first_cell else None))))"

fun find_winner :: "board \<Rightarrow> int list list \<Rightarrow> error + string option" where
  "find_winner b [] = Inr None"
| "find_winner b (line # ls) =
     (case line_winner b line of
        Inl e \<Rightarrow> Inl e
      | Inr (Some w) \<Rightarrow> Inr (Some w)
      | Inr None \<Rightarrow> find_winner b ls)"

definition check_win :: "board \<Rightarrow> error + py_value" where
  "check_win b =
     (case find_winner b (winning_lines b) of
        Inl e \<Rightarrow> Inl e
      | Inr (Some w) \<Rightarrow> Inr (PStr w)
      | Inr None \<Rightarrow>
     (case all_gen (\<lambda>i. map_sum id (\<lambda>c. c \<notin> set ['' '']) (cell_at b i))
             (py_range1 (size_b b * size_b b)) of
        Inl e \<Rightarrow> Inl e
      | Inr full \<Rightarrow>
          if full then
            (if entanglement_count b \<le> 0 then Inr (PStr ''Draw'')
             else Inr (PInt (entanglement_count b)))
          else Inr PNone))"

section \<open>Board states and positions\<close>

text \<open>
  The grid of a board of size \<open>n\<close> has \<open>n\<close> rows of \<open>n\<close> cells. A position is on the
  board when both coordinates are in \<open>[0, n)\<close>.
\<close>

definition grid_ok :: "int \<Rightarrow> string list list \<Rightarrow> bool" where
  "grid_ok n cs = (length cs = nat n \<and> (\<forall>row \<in> set cs. length row = nat n))"

definition in_grid :: "board \<Rightarrow> int \<times> int \<Rightarrow> bool" where
  "in_grid b p = (0 \<le> fst p \<and> fst p < size_b b \<and> 0 \<le> snd p \<and> snd p < size_b b)"

text \<open>The cell at a position on the board, and the cell with a flat index.\<close>

definition the_cell :: "board \<Rightarrow> int \<times> int \<Rightarrow> string" where
  "the_cell b p = cells b ! nat (fst p) ! nat (snd p)"

definition flat_cell :: "board \<Rightarrow> int \<Rightarrow> string" where
  "flat_cell b i = the_cell b (i div size_b b, i mod size_b b)"

text \<open>The empty board of size 3, as \<^verbatim>\<open>Board()\<close> builds it.\<close>

definition board3 :: board where
  "board3 =
     \<lparr> size_b = 3, entanglement_count = 0,
       cells = [['' '', '' '', '' ''], ['' '', '' '', '' ''], ['' '', '' '', '' '']],
       circuit = [GReset, GBarrier],
       winning_lines =
         [[0, 3, 6], [1, 4, 7], [2, 5, 8], [0, 1, 2], [3, 4, 5], [6, 7, 8],
          [0, 4, 8], [2, 4, 6]] \<rparr>"

text \<open>
  A position that no subscript of the grid accepts: a coordinate below \<open>-size\<close> or at
  least \<open>size\<close>.
\<close>

definition off_grid :: "board \<Rightarrow> int \<times> int \<Rightarrow> bool" where
  "off_grid b p =
     (fst p < - size_b b \<or> size_b b \<le> fst p \<or> snd p < - size_b b \<or> size_b b \<le> snd p)"

text \<open>
  The lines of an \<open>n \<times> n\<close> grid, by the flat index \<open>row * n + col\<close> of their cells:
  column \<open>c\<close>, row \<open>r\<close>, the diagonal of the cells \<open>(k, k)\<close> and the diagonal of the
  cells \<open>(k, n - 1 - k)\<close>.
\<close>

definition column_line :: "int \<Rightarrow> int \<Rightarrow> int list" where
  "column_line n c = map (\<lambda>r. int r * n + c) [0..<nat n]"

definition row_line :: "int \<Rightarrow> int \<Rightarrow> int list" where
  "row_line n r = map (\<lambda>c. r * n + int c) [0..<nat n]"

definition diagonal :: "int \<Rightarrow> int list" where
  "diagonal n = map (\<lambda>k. int k * n + int k) [0..<nat n]"

definition anti_diagonal :: "int \<Rightarrow> int list" where
  "anti_diagonal n = map (\<lambda>k. int k * n + (n - 1 - int k)) [0..<nat n]"

definition lines_of_grid :: "int \<Rightarrow> int list list" where
  "lines_of_grid n =
     map (column_line n) (py_range1 n) @ map (row_line n) (py_range1 n)
       @ [diagonal n, anti_diagonal n]"

text \<open>
  A board as the constructor and the moves leave it: a positive size, a grid of that
  size, and winning lines that are non-empty and name cells of the grid.
\<close>

definition lines_ok :: "board \<Rightarrow> bool" where
  "lines_ok b =
     (\<forall>line \<in> set (winning_lines b).
        line \<noteq> [] \<and> (\<forall>i \<in> set line. 0 \<le> i \<and> i < size_b b * size_b b))"

definition wf_board :: "board \<Rightarrow> bool" where
  "wf_board b = (0 < size_b b \<and> grid_ok (size_b b) (cells b) \<and> lines_ok b)"

text \<open>
  The cells the specification's data model allows: empty, a classical mark of X or O, or
  a pending mark of X or O.
\<close>

definition marks_ok :: "board \<Rightarrow> bool" where
  "marks_ok b =
     (\<forall>row \<in> set (cells b). \<forall>c \<in> set row. c \<in> set ['' '', ''X'', ''O'', ''X?'', ''O?''])"

text \<open>
  A completed line: all its cells hold the value of its first cell, and that value is
  neither empty nor a pending mark.
\<close>

definition line_complete :: "board \<Rightarrow> int list \<Rightarrow> bool" where
  "line_complete b line =
     ((\<forall>i \<in> set line. flat_cell b i = flat_cell b (hd line))
      \<and> flat_cell b (hd line) \<notin> set ['' '', ''X?'', ''O?''])"

text \<open>
  Example boards of size 3: the board after the three entangling moves of the
  specification's scenario; a board with the middle column won by X; a full board with
  no completed line, with a given counter.
\<close>

definition scenario_board :: board where
  "scenario_board =
     \<lparr> size_b = 3, entanglement_count = 3,
       cells = [[''X?'', ''X?'', ''X?''], [''X?'', ''O?'', ''O?''], [''X?'', '' '', ''O?'']],
       circuit = [GReset, GBarrier, GH 0, GCX 0 1, GH 4, GCX 4 5, GCCX 4 5 8,
                  GH 2, GCX 2 3, GCCX 2 3 6],
       winning_lines =
         [[0, 3, 6], [1, 4, 7], [2, 5, 8], [0, 1, 2], [3, 4, 5], [6, 7, 8],
          [0, 4, 8], [2, 4, 6]] \<rparr>"

definition won_board :: board where
  "won_board = board3\<lparr>cells := [[''O'', ''X'', '' ''], [''O?'', ''X'', ''O?''], [''O'', ''X'', '' '']],
                        entanglement_count := 1\<rparr>"

definition full_board :: "int \<Rightarrow> board" where
  "full_board k = board3\<lparr>cells := [[''X'', ''O'', ''X''], [''X?'', ''X?'', ''O''], [''O'', ''X'', ''O'']],
                           entanglement_count := k\<rparr>"

text \<open>
  The flat index \<open>row * size + col\<close> of a position, and the mark that line 115 writes
  for the cell with flat index \<open>i\<close>: X when character \<open>i\<close> of the chosen state is
  \<^verbatim>\<open>'1'\<close>, O otherwise.
\<close>

definition flat_index :: "board \<Rightarrow> int \<times> int \<Rightarrow> int" where
  "flat_index b p = fst p * size_b b + snd p"

definition committed :: "string \<Rightarrow> int \<Rightarrow> string" where
  "committed max_state i = (if max_state ! nat i = CHR ''1'' then ''X'' else ''O'')"

text \<open>
  The board of size 3 after O was placed in the centre and X entangled the first two
  cells of the top row, and a dictionary of counts as the simulator returns it for that
  circuit (1024 shots, the entangled pair read as 11 or as 00; the key's last character
  is qubit 0).
\<close>

definition pair_board :: board where
  "pair_board =
     board3\<lparr>cells := [[''X?'', ''X?'', '' ''], ['' '', ''O'', '' ''], ['' '', '' '', '' '']],
            entanglement_count := 1,
            circuit := [GReset, GBarrier, GId 4, GH 0, GCX 0 1]\<rparr>"

definition bell_counts :: "(string \<times> nat) list" where
  "bell_counts = [(''000000011'', 494), (''000000000'', 530)]"

text \<open>
  What a method may change: the size and the winning lines stay, and a grid of the
  board's size stays one. The cells after a call are cells from before or new values
  from a given set.
\<close>

definition same_frame :: "board \<Rightarrow> board \<Rightarrow> bool" where
  "same_frame b b' =
     (size_b b' = size_b b \<and> winning_lines b' = winning_lines b
      \<and> (grid_ok (size_b b) (cells b) \<longrightarrow> grid_ok (size_b b) (cells b')))"

definition cells_from :: "string set \<Rightarrow> board \<Rightarrow> board \<Rightarrow> bool" where
  "cells_from new b b' =
     (\<forall>row' \<in> set (cells b'). \<forall>c \<in> set row'.
        c \<in> new \<or> (\<exists>row \<in> set (cells b). c \<in> set row))"

text \<open>
  The cell a subscript reads at a position the grid accepts: a negative coordinate counts
  from the end.
\<close>

definition wrap :: "int \<Rightarrow> int \<Rightarrow> nat" where
  "wrap n i = nat (if i < 0 then i + n else i)"

definition cell_read :: "board \<Rightarrow> int \<times> int \<Rightarrow> string" where
  "cell_read b p = cells b ! wrap (size_b b) (fst p) ! wrap (size_b b) (snd p)"

section \<open>Subscripts on the board\<close>

lemma py_index_in: "0 \<le> i \<Longrightarrow> i < int n \<Longrightarrow> py_index n i = Inr (nat i)"
  by (simp add: py_index_def)

lemma py_index_out: "i < - int n \<or> int n \<le> i \<Longrightarrow> py_index n i = Inl IndexError"
  by (auto simp add: py_index_def)

lemma flat_index_bound:
  assumes "0 \<le> row" "row < n" "0 \<le> col" "col < (n::int)"
  shows "0 \<le> row * n + col" and "row * n + col < n * n"
proof -
  show "0 \<le> row * n + col" using assms by simp
  have "row + 1 \<le> n" using assms by simp
  then have "(row + 1) * n \<le> n * n" using assms by (intro mult_right_mono) auto
  then show "row * n + col < n * n" using assms by (simp add: algebra_simps)
qed

lemma get_cell_in:
  assumes "grid_ok n cs" "0 \<le> row" "row < n" "0 \<le> col" "col < n"
  shows "get_cell cs row col = Inr (cs ! nat row ! nat col)"
proof -
  have r: "py_index (length cs) row = Inr (nat row)"
    using assms by (simp add: grid_ok_def py_index_in)
  have "cs ! nat row \<in> set cs" using assms by (simp add: grid_ok_def)
  then have "length (cs ! nat row) = nat n" using assms by (simp add: grid_ok_def)
  then have c: "py_index (length (cs ! nat row)) col = Inr (nat col)"
    using assms by (simp add: py_index_in)
  show ?thesis by (simp add: get_cell_def r c)
qed

lemma set_cell_in:
  assumes "grid_ok n cs" "0 \<le> row" "row < n" "0 \<le> col" "col < n"
  shows "set_cell cs row col v = Inr (cs[nat row := (cs ! nat row)[nat col := v]])"
proof -
  have r: "py_index (length cs) row = Inr (nat row)"
    using assms by (simp add: grid_ok_def py_index_in)
  have "cs ! nat row \<in> set cs" using assms by (simp add: grid_ok_def)
  then have "length (cs ! nat row) = nat n" using assms by (simp add: grid_ok_def)
  then have c: "py_index (length (cs ! nat row)) col = Inr (nat col)"
    using assms by (simp add: py_index_in)
  show ?thesis by (simp add: set_cell_def r c)
qed

lemma qubit_in:
  assumes "0 \<le> row" "row < size_b b" "0 \<le> col" "col < size_b b"
  shows "qubit b (row * size_b b + col) = Inr (nat (row * size_b b + col))"
  unfolding qubit_def using flat_index_bound[OF assms] by (intro py_index_in) auto

lemma py_range1_mem: "i \<in> set (py_range1 n) \<longleftrightarrow> 0 \<le> i \<and> i < n"
proof
  assume "i \<in> set (py_range1 n)"
  then show "0 \<le> i \<and> i < n" by (auto simp add: py_range1_def)
next
  assume "0 \<le> i \<and> i < n"
  then have "i = int (nat i)" "nat i \<in> {0..<nat n}" by auto
  then show "i \<in> set (py_range1 n)"
    unfolding py_range1_def set_map set_upt by (rule image_eqI)
qed

section \<open>Classical moves\<close>

text \<open>
  C8. On a board whose grid has its \<open>size\<close> rows and columns, and for a position on the
  board, \<^verbatim>\<open>make_classical_move\<close> never raises. It returns \<^verbatim>\<open>True\<close> exactly when the
  cell is \<^verbatim>\<open>' '\<close>, and then that cell holds the player's mark, the matching instruction
  is appended to the circuit, and nothing else changes (the counter included). On an
  occupied cell it returns \<^verbatim>\<open>False\<close> and the board is the one it was.
\<close>

theorem make_classical_move_empty_iff:
  assumes "grid_ok (size_b b) (cells b)"
    and "0 \<le> row" "row < size_b b" "0 \<le> col" "col < size_b b"
  shows "make_classical_move b row col player_mark =
           (if cells b ! nat row ! nat col = '' ''
            then (Inr True,
                  b\<lparr>cells := (cells b)[nat row := (cells b ! nat row)[nat col := player_mark]],
                    circuit := circuit b @
                      [if player_mark = ''X'' then GX (nat (row * size_b b + col))
                       else GId (nat (row * size_b b + col))]\<rparr>)
            else (Inr False, b))"
proof -
  note g = get_cell_in[OF assms]
  note s = set_cell_in[OF assms]
  have q: "qubit (b\<lparr>cells := cs\<rparr>) (row * size_b b + col) = Inr (nat (row * size_b b + col))"
    for cs
    using qubit_in[of row "b\<lparr>cells := cs\<rparr>" col] assms by simp
  show ?thesis
    by (simp add: make_classical_move_def g s q append_gate_def Let_def)
qed

theorem make_classical_move_empty_iff_witness:
  "make_classical_move board3 1 2 ''X'' =
     (Inr True,
      board3\<lparr>cells := [['' '', '' '', '' ''], ['' '', '' '', ''X''], ['' '', '' '', '' '']],
             circuit := [GReset, GBarrier, GX 5]\<rparr>)
   \<and> make_classical_move
       (board3\<lparr>cells := [['' '', '' '', '' ''], ['' '', '' '', ''O?''], ['' '', '' '', '' '']]\<rparr>)
       1 2 ''X'' =
     (Inr False,
      board3\<lparr>cells := [['' '', '' '', '' ''], ['' '', '' '', ''O?''], ['' '', '' '', '' '']]\<rparr>)"
  using make_classical_move_empty_iff [of board3 1 2 "''X''"]
    make_classical_move_empty_iff
      [of "board3\<lparr>cells := [['' '', '' '', '' ''], ['' '', '' '', ''O?''], ['' '', '' '', '' '']]\<rparr>"
          1 2 "''X''"]
  by (simp add: board3_def grid_ok_def)

section \<open>Positions outside the grid\<close>

lemma get_cell_error: "get_cell cs row col = Inl e \<Longrightarrow> e = IndexError"
  by (auto simp add: get_cell_def py_index_def split: sum.splits if_splits)

lemma get_cell_off:
  assumes "grid_ok n cs"
    and "row < - n \<or> n \<le> row \<or> col < - n \<or> n \<le> col"
  shows "get_cell cs row col = Inl IndexError"
proof (cases "py_index (length cs) row")
  case (Inl e)
  then show ?thesis
    by (auto simp add: get_cell_def py_index_def split: if_splits)
next
  case (Inr r)
  then have "r < length cs"
    by (auto simp add: py_index_def split: if_splits)
  then have "cs ! r \<in> set cs" by simp
  then have len: "length (cs ! r) = nat n" using assms(1) by (simp add: grid_ok_def)
  have "\<not> (row < - n \<or> n \<le> row)"
    using Inr assms(1) by (auto simp add: py_index_def grid_ok_def split: if_splits)
  then have "col < - n \<or> n \<le> col" using assms(2) by blast
  then have "py_index (length (cs ! r)) col = Inl IndexError"
    using len by (auto simp add: py_index_def)
  then show ?thesis by (simp add: get_cell_def Inr)
qed

lemma get_cell_accepted:
  assumes "grid_ok (size_b b) (cells b)" "\<not> off_grid b p"
  shows "get_cell (cells b) (fst p) (snd p) = Inr (cell_read b p)"
proof -
  let ?n = "size_b b"
  have r: "- ?n \<le> fst p" "fst p < ?n" and c: "- ?n \<le> snd p" "snd p < ?n"
    using assms(2) by (simp_all add: off_grid_def)
  then have pos: "0 < ?n" by linarith
  have len: "int (length (cells b)) = ?n" using assms(1) pos by (simp add: grid_ok_def)
  have ri: "py_index (length (cells b)) (fst p) = Inr (wrap ?n (fst p))"
    using r len by (simp add: py_index_def wrap_def)
  have "wrap ?n (fst p) < length (cells b)" using r len by (simp add: wrap_def) linarith
  then have "cells b ! wrap ?n (fst p) \<in> set (cells b)" by simp
  then have "int (length (cells b ! wrap ?n (fst p))) = ?n"
    using assms(1) pos by (simp add: grid_ok_def)
  then have ci: "py_index (length (cells b ! wrap ?n (fst p))) (snd p) = Inr (wrap ?n (snd p))"
    using c by (simp add: py_index_def wrap_def)
  show ?thesis by (simp add: get_cell_def ri ci cell_read_def)
qed

lemma any_gen_up_to_off_grid:
  assumes "grid_ok (size_b b) (cells b)" and "\<exists>p \<in> set ps. off_grid b p"
  shows "any_gen (\<lambda>(row, col). map_sum id (\<lambda>c. c \<noteq> '' '') (get_cell (cells b) row col)) ps
           = (if \<exists>q \<in> set (takeWhile (\<lambda>q. \<not> off_grid b q) ps). cell_read b q \<noteq> '' ''
              then Inr True else Inl IndexError)"
  using assms(2)
proof (induction ps)
  case Nil
  then show ?case by simp
next
  case (Cons p ps)
  obtain row col where p: "p = (row, col)" by (cases p)
  show ?case
  proof (cases "off_grid b p")
    case True
    then have "get_cell (cells b) row col = Inl IndexError"
      using get_cell_off[OF assms(1), of row col] by (simp add: off_grid_def p)
    then show ?thesis using True by (simp add: p)
  next
    case False
    from get_cell_accepted[OF assms(1) False]
    have g: "get_cell (cells b) row col = Inr (cell_read b p)" by (simp add: p)
    have "\<exists>q \<in> set ps. off_grid b q" using Cons.prems False by auto
    from Cons.IH[OF this] show ?thesis using False g by (simp add: p)
  qed
qed

text \<open>
  C9, as the code has it. No move checks its coordinates: a coordinate outside
  \<open>[-size, size)\<close> makes the subscript of \<^verbatim>\<open>self.cells\<close> raise \<^verbatim>\<open>IndexError\<close>, and
  the board is left as it was. \<^verbatim>\<open>make_classical_move\<close> raises. \<^verbatim>\<open>make_swap_move\<close>
  raises when its first cell is outside; when only the second is, it returns \<^verbatim>\<open>False\<close>
  if the first cell is empty (the second is then not read) and raises otherwise.
  \<^verbatim>\<open>make_entangled_move\<close>, given a position outside, returns \<^verbatim>\<open>False\<close> when the
  number of positions is not 2 or 3 or when a position in front of the first one outside
  is occupied, and raises otherwise.
\<close>

theorem off_grid_moves_exact:
  assumes "grid_ok (size_b b) (cells b)"
  shows "(off_grid b (row, col) \<longrightarrow>
            make_classical_move b row col player_mark = (Inl IndexError, b))
       \<and> (off_grid b (row1, col1) \<longrightarrow>
            make_swap_move b row1 col1 row2 col2 = (Inl IndexError, b))
       \<and> (\<not> off_grid b (row1, col1) \<and> off_grid b (row2, col2) \<longrightarrow>
            make_swap_move b row1 col1 row2 col2
              = (if cell_read b (row1, col1) = '' '' then (Inr False, b)
                 else (Inl IndexError, b)))
       \<and> ((\<exists>p \<in> set positions. off_grid b p) \<longrightarrow>
            make_entangled_move b positions mark
              = (if length positions \<noteq> 2 \<and> length positions \<noteq> 3 then (Inr False, b)
                 else if \<exists>q \<in> set (takeWhile (\<lambda>q. \<not> off_grid b q) positions).
                           cell_read b q \<noteq> '' ''
                 then (Inr False, b)
                 else (Inl IndexError, b)))"
proof (intro conjI impI)
  assume "off_grid b (row, col)"
  then have "get_cell (cells b) row col = Inl IndexError"
    using get_cell_off[OF assms, of row col] by (simp add: off_grid_def)
  then show "make_classical_move b row col player_mark = (Inl IndexError, b)"
    by (simp add: make_classical_move_def)
next
  assume "off_grid b (row1, col1)"
  then have "get_cell (cells b) row1 col1 = Inl IndexError"
    using get_cell_off[OF assms, of row1 col1] by (simp add: off_grid_def)
  then show "make_swap_move b row1 col1 row2 col2 = (Inl IndexError, b)"
    by (simp add: make_swap_move_def)
next
  assume a: "\<not> off_grid b (row1, col1) \<and> off_grid b (row2, col2)"
  then have g1: "get_cell (cells b) row1 col1 = Inr (cell_read b (row1, col1))"
    using get_cell_accepted[OF assms, of "(row1, col1)"] by simp
  have g2: "get_cell (cells b) row2 col2 = Inl IndexError"
    using a get_cell_off[OF assms, of row2 col2] by (simp add: off_grid_def)
  show "make_swap_move b row1 col1 row2 col2
          = (if cell_read b (row1, col1) = '' '' then (Inr False, b) else (Inl IndexError, b))"
    by (simp add: make_swap_move_def g1 g2)
next
  assume "\<exists>p \<in> set positions. off_grid b p"
  note any = any_gen_up_to_off_grid[OF assms this]
  show "make_entangled_move b positions mark
          = (if length positions \<noteq> 2 \<and> length positions \<noteq> 3 then (Inr False, b)
             else if \<exists>q \<in> set (takeWhile (\<lambda>q. \<not> off_grid b q) positions).
                       cell_read b q \<noteq> '' ''
             then (Inr False, b)
             else (Inl IndexError, b))"
    unfolding make_entangled_move_def any by simp
qed

theorem off_grid_moves_exact_witness:
  "make_classical_move board3 3 0 ''X'' = (Inl IndexError, board3)
   \<and> make_swap_move won_board 0 (-4) 1 1 = (Inl IndexError, won_board)
   \<and> make_swap_move won_board 0 2 1 3 = (Inr False, won_board)
   \<and> make_swap_move won_board 0 0 1 3 = (Inl IndexError, won_board)
   \<and> make_entangled_move won_board [(0, 3)] ''O'' = (Inr False, won_board)
   \<and> make_entangled_move won_board [(0, 0), (0, 3)] ''O'' = (Inr False, won_board)
   \<and> make_entangled_move won_board [(0, 2), (0, 3)] ''O'' = (Inl IndexError, won_board)
   \<and> make_entangled_move won_board [(0, 3), (0, 0)] ''O'' = (Inl IndexError, won_board)"
proof -
  have g: "grid_ok (size_b board3) (cells board3)"
    "grid_ok (size_b won_board) (cells won_board)"
    by (simp_all add: won_board_def board3_def grid_ok_def)
  have o: "off_grid board3 (3, 0)" "off_grid won_board (0, -4)" "off_grid won_board (1, 3)"
    "\<not> off_grid won_board (0, 2)" "\<not> off_grid won_board (0, 0)"
    "off_grid won_board (0, 3)"
    by (simp_all add: won_board_def board3_def off_grid_def)
  have c: "cell_read won_board (0, 2) = '' ''" "cell_read won_board (0, 0) = ''O''"
    by (simp_all add: won_board_def board3_def cell_read_def wrap_def)
  have t: "takeWhile (\<lambda>q. \<not> off_grid won_board q) [(0, 3)] = []"
    "takeWhile (\<lambda>q. \<not> off_grid won_board q) [(0, 0), (0, 3)] = [(0, 0)]"
    "takeWhile (\<lambda>q. \<not> off_grid won_board q) [(0, 2), (0, 3)] = [(0, 2)]"
    "takeWhile (\<lambda>q. \<not> off_grid won_board q) [(0, 3), (0, 0)] = []"
    using o by simp_all
  have "make_classical_move board3 3 0 ''X'' = (Inl IndexError, board3)"
    using off_grid_moves_exact [OF g(1), of 3 0 "''X''"] o by blast
  moreover have "make_swap_move won_board 0 (-4) 1 1 = (Inl IndexError, won_board)"
    using off_grid_moves_exact [OF g(2), of _ _ _ 0 "-4" 1 1] o by blast
  moreover have "make_swap_move won_board 0 2 1 3 = (Inr False, won_board)"
    using off_grid_moves_exact [OF g(2), of _ _ _ 0 2 1 3] o c by simp
  moreover have "make_swap_move won_board 0 0 1 3 = (Inl IndexError, won_board)"
    using off_grid_moves_exact [OF g(2), of _ _ _ 0 0 1 3] o c by simp
  moreover have "make_entangled_move won_board [(0, 3)] ''O'' = (Inr False, won_board)"
    using off_grid_moves_exact [OF g(2), of _ _ _ _ _ _ _ "[(0, 3)]" "''O''"] o by simp
  moreover have "make_entangled_move won_board [(0, 0), (0, 3)] ''O'' = (Inr False, won_board)"
    using off_grid_moves_exact [OF g(2), of _ _ _ _ _ _ _ "[(0, 0), (0, 3)]" "''O''"] o c t
    by simp
  moreover have "make_entangled_move won_board [(0, 2), (0, 3)] ''O''
                   = (Inl IndexError, won_board)"
    using off_grid_moves_exact [OF g(2), of _ _ _ _ _ _ _ "[(0, 2), (0, 3)]" "''O''"] o c t
    by simp
  moreover have "make_entangled_move won_board [(0, 3), (0, 0)] ''O''
                   = (Inl IndexError, won_board)"
    using off_grid_moves_exact [OF g(2), of _ _ _ _ _ _ _ "[(0, 3), (0, 0)]" "''O''"] o c t
    by simp
  ultimately show ?thesis by simp
qed

text \<open>
  C9, as the claim states it, fails: on the empty board of size 3 each of the three moves,
  given a column or row 3, raises \<^verbatim>\<open>IndexError\<close> instead of returning a failure value.
\<close>

theorem out_of_range_raises:
  "fst (make_classical_move board3 3 0 ''X'') = Inl IndexError
   \<and> fst (make_swap_move
       (board3\<lparr>cells := [[''X'', '' '', '' ''], ['' '', '' '', '' ''], ['' '', '' '', '' '']]\<rparr>)
       0 0 0 3) = Inl IndexError
   \<and> fst (make_entangled_move board3 [(0, 0), (0, 3)] ''O'') = Inl IndexError"
  by (simp add: make_classical_move_def make_swap_move_def make_entangled_move_def
      get_cell_def py_index_def board3_def)

section \<open>Construction and the winning lines\<close>

lemma div_quot_rem:
  assumes "0 \<le> r" "r < d"
  shows "(q * d + r) div d = (q::int)"
  using assms by simp

lemma collect_map:
  "(\<forall>x \<in> set xs. f x = Inr (g x)) \<Longrightarrow> collect f xs = Inr (map g xs)"
  by (induction xs) auto

lemma py_range_column:
  assumes "0 \<le> i" "i < n"
  shows "py_range i (n * n) n = Inr (column_line n i)"
proof -
  have e: "n * n - i + n - 1 = n * n + (n - 1 - i)" by simp
  have "(n * n - i + n - 1) div n = n"
    unfolding e using assms by (intro div_quot_rem) auto
  then show ?thesis using assms
    by (simp add: py_range_def column_line_def add.commute)
qed

lemma py_range_row:
  assumes "0 < n"
  shows "py_range (i * n) ((i + 1) * n) 1 = Inr (row_line n i)"
  by (simp add: py_range_def row_line_def algebra_simps)

lemma py_range_diagonal:
  assumes "0 < n"
  shows "py_range 0 (n * n) (n + 1) = Inr (diagonal n)"
proof -
  have e: "n * n - 0 + (n + 1) - 1 = n * (n + 1) + 0" by (simp add: algebra_simps)
  have "(n * n - 0 + (n + 1) - 1) div (n + 1) = n"
    unfolding e using assms by (intro div_quot_rem) auto
  then show ?thesis using assms
    by (simp add: py_range_def diagonal_def algebra_simps)
qed

lemma py_range_anti_diagonal:
  assumes "2 \<le> n"
  shows "py_range (n - 1) (n * n - 1) (n - 1) = Inr (anti_diagonal n)"
proof -
  have e: "n * n - 1 - (n - 1) + (n - 1) - 1 = n * (n - 1) + (n - 2)"
    by (simp add: algebra_simps)
  have "(n * n - 1 - (n - 1) + (n - 1) - 1) div (n - 1) = n"
    unfolding e using assms by (intro div_quot_rem) auto
  then show ?thesis using assms
    by (simp add: py_range_def anti_diagonal_def algebra_simps)
qed

lemma winning_lines_of_grid:
  assumes "2 \<le> n"
  shows "winning_lines_of n = Inr (lines_of_grid n)"
proof -
  have c: "collect (\<lambda>i. py_range i (n * n) n) (py_range1 n) = Inr (map (column_line n) (py_range1 n))"
    by (intro collect_map) (auto simp add: py_range1_def py_range_column)
  have r: "collect (\<lambda>i. py_range (i * n) ((i + 1) * n) 1) (py_range1 n)
             = Inr (map (row_line n) (py_range1 n))"
    using assms by (intro collect_map) (auto simp add: py_range_row)
  show ?thesis using assms
    by (simp add: winning_lines_of_def c r py_range_diagonal py_range_anti_diagonal
        lines_of_grid_def)
qed

lemma init_board_ok:
  assumes "2 \<le> n"
  shows "init_board n =
           Inr \<lparr> size_b = n, entanglement_count = 0,
                 cells = replicate (nat n) (replicate (nat n) '' ''),
                 circuit = [GReset, GBarrier],
                 winning_lines = lines_of_grid n \<rparr>"
  by (simp add: init_board_def winning_lines_of_grid[OF assms])

lemma init_board_3: "init_board 3 = Inr board3"
  by (simp add: init_board_ok board3_def lines_of_grid_def py_range1_def column_line_def
    row_line_def diagonal_def anti_diagonal_def numeral_3_eq_3 upt_rec)

text \<open>
  C10. The claim holds for every size from 2 on (\<open>init_board_ok\<close>), and fails at size 1:
  the second diagonal is \<^verbatim>\<open>range(size - 1, size**2 - 1, size - 1)\<close>, whose step is 0
  there, so \<^verbatim>\<open>Board(1)\<close> raises \<^verbatim>\<open>ValueError\<close> instead of building the board whose
  four lines are all \<^verbatim>\<open>(0,)\<close>. The first diagonal, \<^verbatim>\<open>range(0, size**2, size + 1)\<close>,
  is \<^verbatim>\<open>(0,)\<close> at size 1.
\<close>

theorem init_board_size_one: "init_board 1 = Inl ValueError"
  by (simp add: init_board_def winning_lines_of_def py_range_def py_range1_def)

section \<open>Reading the cells of a line\<close>

lemma flat_div_bound:
  assumes "0 < n" "i < n * (n::int)"
  shows "i div n < n"
proof (rule ccontr)
  assume "\<not> i div n < n"
  then have "n \<le> i div n" by simp
  then have "n * n \<le> n * (i div n)" using assms by (intro mult_left_mono) auto
  moreover have "n * (i div n) + i mod n = i" by simp
  moreover have "0 \<le> i mod n" using assms by simp
  ultimately show False using assms by linarith
qed

lemma flat_div_mod:
  assumes "0 \<le> row" "row < n" "0 \<le> col" "col < (n::int)"
  shows "(row * n + col) div n = row" "(row * n + col) mod n = col"
  using assms by simp_all

lemma flat_in_grid:
  assumes "0 < size_b b" "0 \<le> i" "i < size_b b * size_b b"
  shows "in_grid b (i div size_b b, i mod size_b b)"
  using assms flat_div_bound[of "size_b b" i]
  by (simp add: in_grid_def pos_imp_zdiv_nonneg_iff)

lemma cell_at_in:
  assumes "wf_board b" "0 \<le> i" "i < size_b b * size_b b"
  shows "cell_at b i = Inr (flat_cell b i)"
proof -
  have pos: "0 < size_b b" and g: "grid_ok (size_b b) (cells b)"
    using assms(1) by (simp_all add: wf_board_def)
  from flat_in_grid[OF pos assms(2,3)]
  have "get_cell (cells b) (i div size_b b) (i mod size_b b)
          = Inr (cells b ! nat (i div size_b b) ! nat (i mod size_b b))"
    by (intro get_cell_in[OF g]) (simp_all add: in_grid_def)
  then show ?thesis using pos by (simp add: cell_at_def flat_cell_def the_cell_def)
qed

lemma all_gen_total:
  "(\<forall>x \<in> set xs. p x = Inr (P x)) \<Longrightarrow> all_gen p xs = Inr (\<forall>x \<in> set xs. P x)"
  by (induction xs) auto

lemma any_gen_total:
  "(\<forall>x \<in> set xs. p x = Inr (P x)) \<Longrightarrow> any_gen p xs = Inr (\<exists>x \<in> set xs. P x)"
  by (induction xs) auto

lemma all_cells_on_line:
  assumes "wf_board b" "line \<in> set (winning_lines b)"
  shows "all_gen (\<lambda>i. map_sum id P (cell_at b i)) line
           = Inr (\<forall>i \<in> set line. P (flat_cell b i))"
proof (rule all_gen_total, rule ballI)
  fix i assume "i \<in> set line"
  then have "0 \<le> i" "i < size_b b * size_b b"
    using assms by (auto simp add: wf_board_def lines_ok_def)
  then show "map_sum id P (cell_at b i) = Inr (P (flat_cell b i))"
    by (simp add: cell_at_in[OF assms(1)])
qed

section \<open>The collapse trigger\<close>

text \<open>
  C2. On a well-formed board \<^verbatim>\<open>can_be_collapsed\<close> never raises and returns \<^verbatim>\<open>True\<close>
  exactly when the counter is at least 3 and some winning line has only cells ending in
  \<^verbatim>\<open>'?'\<close>, whatever mark is in front of it. The method assigns nothing: it is a function
  of the board alone.
\<close>

theorem can_be_collapsed_iff:
  assumes "wf_board b"
  shows "can_be_collapsed b =
           Inr (3 \<le> entanglement_count b
                \<and> (\<exists>line \<in> set (winning_lines b). \<forall>i \<in> set line. endswith_q (flat_cell b i)))"
proof -
  have "any_gen (\<lambda>line. all_gen (\<lambda>i. map_sum id endswith_q (cell_at b i)) line)
          (winning_lines b)
        = Inr (\<exists>line \<in> set (winning_lines b). \<forall>i \<in> set line. endswith_q (flat_cell b i))"
    by (rule any_gen_total) (simp add: all_cells_on_line[OF assms])
  then show ?thesis by (simp add: can_be_collapsed_def)
qed


theorem can_be_collapsed_iff_witness:
  "can_be_collapsed scenario_board = Inr True
   \<and> can_be_collapsed (scenario_board\<lparr>entanglement_count := 2\<rparr>) = Inr False
   \<and> can_be_collapsed won_board = Inr False"
proof -
  have w: "wf_board scenario_board" "wf_board (scenario_board\<lparr>entanglement_count := 2\<rparr>)"
    "wf_board won_board"
    by (simp_all add: wf_board_def grid_ok_def lines_ok_def scenario_board_def won_board_def
        board3_def)
  show ?thesis
    using can_be_collapsed_iff[OF w(1)] can_be_collapsed_iff[OF w(2)]
      can_be_collapsed_iff[OF w(3)]
    by (simp add: scenario_board_def won_board_def board3_def flat_cell_def the_cell_def
        endswith_q_def)
qed

section \<open>Win and draw evaluation\<close>

lemma wf_line_hd:
  assumes "wf_board b" "line \<in> set (winning_lines b)"
  shows "py_index (length line) 0 = Inr 0" and "line ! 0 = hd line" and "hd line \<in> set line"
    and "cell_at b (hd line) = Inr (flat_cell b (hd line))"
proof -
  have ne: "line \<noteq> []" using assms by (auto simp add: wf_board_def lines_ok_def)
  then show "py_index (length line) 0 = Inr 0" by (simp add: py_index_def)
  show "line ! 0 = hd line" using ne by (simp add: hd_conv_nth)
  show h: "hd line \<in> set line" using ne by simp
  then have "0 \<le> hd line" "hd line < size_b b * size_b b"
    using assms by (auto simp add: wf_board_def lines_ok_def)
  then show "cell_at b (hd line) = Inr (flat_cell b (hd line))"
    by (rule cell_at_in[OF assms(1)])
qed

lemma line_winner_wf:
  assumes "wf_board b" "line \<in> set (winning_lines b)"
  shows "line_winner b line
           = Inr (if line_complete b line then Some (flat_cell b (hd line)) else None)"
  by (simp add: line_winner_def wf_line_hd[OF assms] all_cells_on_line[OF assms]
      line_complete_def)

lemma find_winner_wf:
  assumes "wf_board b" "set ls \<subseteq> set (winning_lines b)"
  shows "(\<exists>w. find_winner b ls = Inr w)
       \<and> (find_winner b ls = Inr None \<longleftrightarrow> (\<forall>line \<in> set ls. \<not> line_complete b line))
       \<and> (\<forall>w. find_winner b ls = Inr (Some w) \<longrightarrow>
            (\<exists>line \<in> set ls. line_complete b line \<and> w = flat_cell b (hd line)))"
  using assms(2)
proof (induction ls)
  case Nil
  then show ?case by simp
next
  case (Cons line ls)
  then have "line \<in> set (winning_lines b)" by simp
  note lw = line_winner_wf[OF assms(1) this]
  from Cons show ?case by (auto simp add: lw)
qed

lemma flat_cell_in_grid:
  assumes "wf_board b" "0 \<le> i" "i < size_b b * size_b b"
  shows "\<exists>row \<in> set (cells b). flat_cell b i \<in> set row"
proof -
  have pos: "0 < size_b b" and g: "grid_ok (size_b b) (cells b)"
    using assms(1) by (simp_all add: wf_board_def)
  from flat_in_grid[OF pos assms(2,3)]
  have r: "nat (i div size_b b) < length (cells b)"
    using g by (simp add: in_grid_def grid_ok_def)
  then have m: "cells b ! nat (i div size_b b) \<in> set (cells b)" by simp
  then have "length (cells b ! nat (i div size_b b)) = nat (size_b b)"
    using g by (simp add: grid_ok_def)
  then have "nat (i mod size_b b) < length (cells b ! nat (i div size_b b))"
    using pos by simp
  then have "flat_cell b i \<in> set (cells b ! nat (i div size_b b))"
    by (simp add: flat_cell_def the_cell_def)
  then show ?thesis using m by blast
qed

lemma marks_ok_flat_cell:
  assumes "wf_board b" "marks_ok b" "line \<in> set (winning_lines b)" "i \<in> set line"
  shows "flat_cell b i \<in> set ['' '', ''X'', ''O'', ''X?'', ''O?'']"
proof -
  have "0 \<le> i" "i < size_b b * size_b b"
    using assms by (auto simp add: wf_board_def lines_ok_def)
  from flat_cell_in_grid[OF assms(1) this] assms(2) show ?thesis
    unfolding marks_ok_def by blast
qed

lemma pending_mark: "c \<in> set ['' '', ''X'', ''O'', ''X?'', ''O?''] \<Longrightarrow>
  endswith_q c \<longleftrightarrow> c \<in> set [''X?'', ''O?'']"
  by (auto simp add: endswith_q_def)

lemma line_complete_no_pending:
  assumes "wf_board b" "marks_ok b" "line \<in> set (winning_lines b)" "line_complete b line"
  shows "flat_cell b (hd line) \<in> {''X'', ''O''}"
    and "\<forall>i \<in> set line. flat_cell b i = flat_cell b (hd line) \<and> \<not> endswith_q (flat_cell b i)"
proof -
  have "hd line \<in> set line" by (rule wf_line_hd(3)[OF assms(1,3)])
  from marks_ok_flat_cell[OF assms(1,2,3) this] assms(4)
  show m: "flat_cell b (hd line) \<in> {''X'', ''O''}"
    by (auto simp add: line_complete_def)
  then have "\<not> endswith_q (flat_cell b (hd line))" by (auto simp add: endswith_q_def)
  then show "\<forall>i \<in> set line. flat_cell b i = flat_cell b (hd line) \<and> \<not> endswith_q (flat_cell b i)"
    using assms(4) by (simp add: line_complete_def)
qed

text \<open>
  C4. On a well-formed board whose cells are those of the data model: a winning line with
  a pending cell never yields a winner, also when all its cells are pending with one tag;
  a line yields the winner \<open>w\<close> only when \<open>w\<close> is X or O and every cell of the line holds
  \<open>w\<close>; and a string returned by \<^verbatim>\<open>check_win\<close> is \<^verbatim>\<open>'Draw'\<close> or the winner of such a line.
\<close>

theorem check_win_never_pending:
  assumes "wf_board b" and "marks_ok b"
  shows "(\<forall>line \<in> set (winning_lines b).
            (\<exists>i \<in> set line. endswith_q (flat_cell b i)) \<longrightarrow> line_winner b line = Inr None)
       \<and> (\<forall>line \<in> set (winning_lines b). \<forall>w.
            line_winner b line = Inr (Some w) \<longrightarrow>
              w \<in> {''X'', ''O''} \<and> (\<forall>i \<in> set line. flat_cell b i = w))
       \<and> (\<forall>w. check_win b = Inr (PStr w) \<longrightarrow>
            w = ''Draw''
            \<or> (\<exists>line \<in> set (winning_lines b). line_winner b line = Inr (Some w)))"
proof -
  have pending: "line_winner b line = Inr None"
    if l: "line \<in> set (winning_lines b)" and p: "\<exists>i \<in> set line. endswith_q (flat_cell b i)"
    for line
  proof -
    have "\<not> line_complete b line"
      using line_complete_no_pending(2)[OF assms l] p by blast
    then show ?thesis by (simp add: line_winner_wf[OF assms(1) l])
  qed
  have winner: "w \<in> {''X'', ''O''} \<and> (\<forall>i \<in> set line. flat_cell b i = w)"
    if l: "line \<in> set (winning_lines b)" and s: "line_winner b line = Inr (Some w)"
    for line w
  proof -
    from s have c: "line_complete b line" and w: "w = flat_cell b (hd line)"
      by (auto simp add: line_winner_wf[OF assms(1) l] split: if_splits)
    from line_complete_no_pending[OF assms l c] w show ?thesis by simp
  qed
  have reported: "w = ''Draw'' \<or> (\<exists>line \<in> set (winning_lines b). line_winner b line = Inr (Some w))"
    if c: "check_win b = Inr (PStr w)" for w
  proof (cases "find_winner b (winning_lines b) = Inr (Some w)")
    case True
    then obtain line where "line \<in> set (winning_lines b)" "line_complete b line"
      "w = flat_cell b (hd line)"
      using find_winner_wf[OF assms(1) subset_refl] by blast
    then show ?thesis using line_winner_wf[OF assms(1)] by auto
  next
    case False
    then have "w = ''Draw''" using c
      by (auto simp add: check_win_def split: sum.splits option.splits if_splits)
    then show ?thesis by simp
  qed
  from pending winner reported show ?thesis by blast
qed


theorem check_win_never_pending_witness:
  "line_winner scenario_board [0, 1, 2] = Inr None
   \<and> check_win won_board = Inr (PStr ''X'')
   \<and> (\<exists>line \<in> set (winning_lines won_board). line_winner won_board line = Inr (Some ''X''))
   \<and> flat_cell won_board 1 = ''X''
   \<and> flat_cell won_board 4 = ''X''
   \<and> flat_cell won_board 7 = ''X''"
proof -
  have s: "wf_board scenario_board" "marks_ok scenario_board"
    "[0, 1, 2] \<in> set (winning_lines scenario_board)"
    "\<exists>i \<in> set [0, 1, 2]. endswith_q (flat_cell scenario_board i)"
    by (simp_all add: wf_board_def grid_ok_def lines_ok_def marks_ok_def scenario_board_def
        flat_cell_def the_cell_def endswith_q_def)
  have w: "wf_board won_board" "marks_ok won_board"
    "[1, 4, 7] \<in> set (winning_lines won_board)"
    by (simp_all add: wf_board_def grid_ok_def lines_ok_def marks_ok_def won_board_def
        board3_def)
  have l: "line_winner won_board [1, 4, 7] = Inr (Some ''X'')"
    by (simp add: line_winner_def cell_at_def get_cell_def py_index_def won_board_def
        board3_def)
  have c: "check_win won_board = Inr (PStr ''X'')"
    by (simp add: check_win_def line_winner_def cell_at_def get_cell_def py_index_def
        won_board_def board3_def)
  have d: "''X'' \<noteq> ''Draw''" by simp
  from check_win_never_pending[OF s(1,2)] s(3,4)
  have "line_winner scenario_board [0, 1, 2] = Inr None" by blast
  moreover from check_win_never_pending[OF w(1,2)] w(3) l
  have "\<forall>i \<in> set [1, 4, 7]. flat_cell won_board i = ''X''" by blast
  moreover from check_win_never_pending[OF w(1,2)] c d
  have "\<exists>line \<in> set (winning_lines won_board). line_winner won_board line = Inr (Some ''X'')"
    by blast
  ultimately show ?thesis using c by simp
qed

lemma all_cells_in_range:
  assumes "wf_board b"
  shows "all_gen (\<lambda>i. map_sum id P (cell_at b i)) (py_range1 (size_b b * size_b b))
           = Inr (\<forall>i \<in> set (py_range1 (size_b b * size_b b)). P (flat_cell b i))"
proof (rule all_gen_total, rule ballI)
  fix i assume "i \<in> set (py_range1 (size_b b * size_b b))"
  then have "0 \<le> i" "i < size_b b * size_b b"
    by (auto simp add: py_range1_def)
  then show "map_sum id P (cell_at b i) = Inr (P (flat_cell b i))"
    by (simp add: cell_at_in[OF assms(1)])
qed

lemma grid_cell_is_flat:
  assumes "wf_board b" "row \<in> set (cells b)" "c \<in> set row"
  shows "\<exists>i \<in> set (py_range1 (size_b b * size_b b)). flat_cell b i = c"
proof -
  have pos: "0 < size_b b" and g: "grid_ok (size_b b) (cells b)"
    using assms(1) by (simp_all add: wf_board_def)
  from assms(2) obtain r where r: "r < length (cells b)" "cells b ! r = row"
    by (auto simp add: in_set_conv_nth)
  from assms(3) obtain k where k: "k < length row" "row ! k = c"
    by (auto simp add: in_set_conv_nth)
  have rn: "int r < size_b b" using r(1) g by (simp add: grid_ok_def)
  have kn: "int k < size_b b" using k(1) assms(2) g by (simp add: grid_ok_def)
  let ?i = "int r * size_b b + int k"
  have b: "0 \<le> ?i" "?i < size_b b * size_b b"
    using flat_index_bound[of "int r" "size_b b" "int k"] rn kn by simp_all
  have "?i div size_b b = int r" "?i mod size_b b = int k"
    using flat_div_mod[of "int r" "size_b b" "int k"] rn kn by simp_all
  then have "flat_cell b ?i = c" using r(2) k(2) by (simp add: flat_cell_def the_cell_def)
  moreover have "?i \<in> set (py_range1 (size_b b * size_b b))"
    using b by (simp add: py_range1_mem)
  ultimately show ?thesis by blast
qed

lemma board_full_iff:
  assumes "wf_board b"
  shows "(\<forall>i \<in> set (py_range1 (size_b b * size_b b)). flat_cell b i \<noteq> '' '')
           \<longleftrightarrow> (\<forall>row \<in> set (cells b). '' '' \<notin> set row)"
proof
  assume a: "\<forall>i \<in> set (py_range1 (size_b b * size_b b)). flat_cell b i \<noteq> '' ''"
  show "\<forall>row \<in> set (cells b). '' '' \<notin> set row"
  proof (intro ballI notI)
    fix row assume "row \<in> set (cells b)" "'' '' \<in> set row"
    from grid_cell_is_flat[OF assms this] a show False by blast
  qed
next
  assume a: "\<forall>row \<in> set (cells b). '' '' \<notin> set row"
  show "\<forall>i \<in> set (py_range1 (size_b b * size_b b)). flat_cell b i \<noteq> '' ''"
  proof (intro ballI)
    fix i assume "i \<in> set (py_range1 (size_b b * size_b b))"
    then have "0 \<le> i" "i < size_b b * size_b b" by (simp_all add: py_range1_mem)
    from flat_cell_in_grid[OF assms this] a show "flat_cell b i \<noteq> '' ''" by auto
  qed
qed

text \<open>
  C5. On a well-formed board with no completed line, \<^verbatim>\<open>check_win\<close> returns one of
  three different values. When no cell is empty it returns the string \<^verbatim>\<open>'Draw'\<close> if the
  counter is 0 (or below), and the counter itself, an integer, if the counter is
  positive. When some cell is empty it returns \<^verbatim>\<open>None\<close>, the no-result-yet outcome, and
  nothing else does.
\<close>

theorem check_win_without_line:
  assumes "wf_board b"
    and "\<forall>line \<in> set (winning_lines b). \<not> line_complete b line"
  shows "check_win b =
           Inr (if \<forall>row \<in> set (cells b). '' '' \<notin> set row
                then (if entanglement_count b \<le> 0 then PStr ''Draw''
                      else PInt (entanglement_count b))
                else PNone)"
proof -
  have f: "find_winner b (winning_lines b) = Inr None"
    using find_winner_wf[OF assms(1) subset_refl] assms(2) by blast
  have a: "all_gen (\<lambda>i. map_sum id (\<lambda>c. c \<noteq> '' '') (cell_at b i))
             (py_range1 (size_b b * size_b b))
           = Inr (\<forall>row \<in> set (cells b). '' '' \<notin> set row)"
    using all_cells_in_range[OF assms(1), of "\<lambda>c. c \<noteq> '' ''"]
    by (simp only: board_full_iff[OF assms(1)])
  show ?thesis by (simp add: check_win_def f a)
qed

theorem check_win_without_line_witness:
  "check_win (full_board 0) = Inr (PStr ''Draw'')
   \<and> check_win (full_board 1) = Inr (PInt 1)
   \<and> check_win pair_board = Inr PNone
   \<and> check_win board3 = Inr PNone"
proof -
  have w: "wf_board (full_board k)"
    "\<forall>line \<in> set (winning_lines (full_board k)). \<not> line_complete (full_board k) line"
    "\<forall>row \<in> set (cells (full_board k)). '' '' \<notin> set row"
    "entanglement_count (full_board k) = k" for k
    by (simp_all add: wf_board_def grid_ok_def lines_ok_def full_board_def board3_def
        line_complete_def flat_cell_def the_cell_def)
  have p: "wf_board pair_board"
    "\<forall>line \<in> set (winning_lines pair_board). \<not> line_complete pair_board line"
    "\<not> (\<forall>row \<in> set (cells pair_board). '' '' \<notin> set row)"
    by (simp_all add: wf_board_def grid_ok_def lines_ok_def pair_board_def board3_def
        line_complete_def flat_cell_def the_cell_def)
  have e: "wf_board board3"
    "\<forall>line \<in> set (winning_lines board3). \<not> line_complete board3 line"
    "\<not> (\<forall>row \<in> set (cells board3). '' '' \<notin> set row)"
    by (simp_all add: wf_board_def grid_ok_def lines_ok_def board3_def
        line_complete_def flat_cell_def the_cell_def)
  have "check_win (full_board 0) = Inr (PStr ''Draw'')"
    using check_win_without_line[OF w(1,2), of 0] w(3,4)[of 0] by simp
  moreover have "check_win (full_board 1) = Inr (PInt 1)"
    using check_win_without_line[OF w(1,2), of 1] w(3,4)[of 1] by simp
  moreover have "check_win pair_board = Inr PNone"
    using check_win_without_line[OF p(1,2)] p(3) by simp
  moreover have "check_win board3 = Inr PNone"
    using check_win_without_line[OF e(1,2)] e(3) by simp
  ultimately show ?thesis by simp
qed

section \<open>Entangling moves\<close>

lemma grid_update:
  assumes "grid_ok n cs" "r < nat n" "c < nat n"
  shows "grid_ok n (cs[r := (cs ! r)[c := v]])"
    and "r' < nat n \<Longrightarrow> c' < nat n \<Longrightarrow>
           cs[r := (cs ! r)[c := v]] ! r' ! c' = (if r' = r \<and> c' = c then v else cs ! r' ! c')"
proof -
  have len: "length cs = nat n" and rows: "\<forall>row \<in> set cs. length row = nat n"
    using assms(1) by (simp_all add: grid_ok_def)
  have "cs ! r \<in> set cs" using len assms(2) by simp
  then have lr: "length (cs ! r) = nat n" using rows by simp
  have "set (cs[r := (cs ! r)[c := v]]) \<subseteq> insert ((cs ! r)[c := v]) (set cs)"
    by (rule set_update_subset_insert)
  then have "\<forall>row \<in> set (cs[r := (cs ! r)[c := v]]). length row = nat n"
    using rows lr by auto
  then show "grid_ok n (cs[r := (cs ! r)[c := v]])" using len by (simp add: grid_ok_def)
  show "cs[r := (cs ! r)[c := v]] ! r' ! c' = (if r' = r \<and> c' = c then v else cs ! r' ! c')"
    if "r' < nat n" "c' < nat n"
    using that len lr assms(2,3) by (simp add: nth_list_update)
qed

lemma mark_cells_in_grid:
  assumes "grid_ok n cs"
    and "\<forall>p \<in> set ps. 0 \<le> fst p \<and> fst p < n \<and> 0 \<le> snd p \<and> snd p < n"
  shows "\<exists>cs'. mark_cells ps v cs = (None, cs') \<and> grid_ok n cs'
           \<and> (\<forall>row col. 0 \<le> row \<and> row < n \<and> 0 \<le> col \<and> col < n \<longrightarrow>
                 cs' ! nat row ! nat col
                   = (if (row, col) \<in> set ps then v else cs ! nat row ! nat col))"
  using assms
proof (induction ps arbitrary: cs)
  case Nil
  then show ?case by simp
next
  case (Cons p ps)
  obtain r c where p: "p = (r, c)" by (cases p)
  have rc: "0 \<le> r" "r < n" "0 \<le> c" "c < n" using Cons.prems(2) by (simp_all add: p)
  let ?cs = "cs[nat r := (cs ! nat r)[nat c := v]]"
  have s: "set_cell cs r c v = Inr ?cs" by (rule set_cell_in[OF Cons.prems(1) rc])
  have n: "nat r < nat n" "nat c < nat n" using rc by simp_all
  note u = grid_update[OF Cons.prems(1) n, where v = v]
  from Cons.IH[OF u(1)] Cons.prems(2)
  obtain cs' where m: "mark_cells ps v ?cs = (None, cs')" and g: "grid_ok n cs'"
    and pt: "\<forall>row col. 0 \<le> row \<and> row < n \<and> 0 \<le> col \<and> col < n \<longrightarrow>
               cs' ! nat row ! nat col
                 = (if (row, col) \<in> set ps then v else ?cs ! nat row ! nat col)"
    by auto
  have "cs' ! nat row ! nat col = (if (row, col) \<in> set (p # ps) then v else cs ! nat row ! nat col)"
    if h: "0 \<le> row \<and> row < n \<and> 0 \<le> col \<and> col < n" for row col
  proof -
    have "nat row < nat n" "nat col < nat n" using h by simp_all
    from u(2)[OF this] have "?cs ! nat row ! nat col
        = (if nat row = nat r \<and> nat col = nat c then v else cs ! nat row ! nat col)" .
    moreover have "nat row = nat r \<and> nat col = nat c \<longleftrightarrow> (row, col) = (r, c)"
      using h rc by auto
    ultimately have a: "?cs ! nat row ! nat col
        = (if (row, col) = (r, c) then v else cs ! nat row ! nat col)" by simp
    have b: "cs' ! nat row ! nat col
        = (if (row, col) \<in> set ps then v else ?cs ! nat row ! nat col)"
      using pt h by blast
    show ?thesis unfolding b a by (simp add: p)
  qed
  then show ?case using m g by (simp add: p s)
qed

lemma any_occupied_in_grid:
  assumes "grid_ok (size_b b) (cells b)" and "\<forall>p \<in> set ps. in_grid b p"
  shows "any_gen (\<lambda>(row, col). map_sum id (\<lambda>c. c \<noteq> '' '') (get_cell (cells b) row col)) ps
           = Inr (\<exists>p \<in> set ps. the_cell b p \<noteq> '' '')"
proof (rule any_gen_total, rule ballI)
  fix p assume "p \<in> set ps"
  then have "in_grid b p" using assms(2) by simp
  then have "get_cell (cells b) (fst p) (snd p) = Inr (the_cell b p)"
    unfolding the_cell_def by (intro get_cell_in[OF assms(1)]) (simp_all add: in_grid_def)
  then show "(case p of (row, col) \<Rightarrow> map_sum id (\<lambda>c. c \<noteq> '' '') (get_cell (cells b) row col))
               = Inr (the_cell b p \<noteq> '' '')"
    by (simp add: case_prod_beta)
qed

lemma flat_index_inj:
  assumes "in_grid b p" "in_grid b q" "p \<noteq> q"
  shows "nat (fst p * size_b b + snd p) \<noteq> nat (fst q * size_b b + snd q)"
proof
  assume e: "nat (fst p * size_b b + snd p) = nat (fst q * size_b b + snd q)"
  have "0 \<le> fst p * size_b b + snd p" "0 \<le> fst q * size_b b + snd q"
    using assms(1,2) by (simp_all add: in_grid_def)
  then have "fst p * size_b b + snd p = fst q * size_b b + snd q" using e by simp
  then have "(fst p * size_b b + snd p) div size_b b = (fst q * size_b b + snd q) div size_b b"
    "(fst p * size_b b + snd p) mod size_b b = (fst q * size_b b + snd q) mod size_b b"
    by simp_all
  then have "fst p = fst q" "snd p = snd q"
    using assms(1,2) by (simp_all add: in_grid_def)
  then show False using assms(3) by (simp add: prod_eq_iff)
qed

lemma qubit_of_position:
  assumes "in_grid b p"
  shows "qubit (b\<lparr>circuit := gs\<rparr>) (fst p * size_b b + snd p) = Inr (nat (fst p * size_b b + snd p))"
  using qubit_in[of "fst p" "b\<lparr>circuit := gs\<rparr>" "snd p"] assms by (simp add: in_grid_def)

lemma entangle_gates_in_grid:
  assumes "\<forall>p \<in> set ps. in_grid b p" "distinct ps" "length ps = 2 \<or> length ps = 3"
  shows "\<exists>gs. entangle_gates b (map (\<lambda>(row, col). row * size_b b + col) ps)
                 = (None, b\<lparr>circuit := circuit b @ gs\<rparr>)"
proof -
  from assms(3) consider p q where "ps = [p, q]" | p q r where "ps = [p, q, r]"
    by (cases ps; cases "tl ps"; cases "tl (tl ps)"; cases "tl (tl (tl ps))") auto
  then show ?thesis
  proof cases
    case 1
    then have g: "in_grid b p" "in_grid b q" "p \<noteq> q" using assms by auto
    note i = flat_index_inj[OF g]
    have q0: "qubit b (fst p * size_b b + snd p) = Inr (nat (fst p * size_b b + snd p))"
      using qubit_of_position[OF g(1), of "circuit b"] by simp
    show ?thesis
      using i
      by (intro exI[of _ "[GH (nat (fst p * size_b b + snd p)),
            GCX (nat (fst p * size_b b + snd p)) (nat (fst q * size_b b + snd q))]"])
        (simp add: 1 entangle_gates_def case_prod_beta q0 append_gate_def
          qubit_of_position[OF g(2)])
  next
    case 2
    then have g: "in_grid b p" "in_grid b q" "in_grid b r" "p \<noteq> q" "p \<noteq> r" "q \<noteq> r"
      using assms by auto
    note i = flat_index_inj[OF g(1,2,4)] flat_index_inj[OF g(1,3,5)] flat_index_inj[OF g(2,3,6)]
    have q0: "qubit b (fst p * size_b b + snd p) = Inr (nat (fst p * size_b b + snd p))"
      using qubit_of_position[OF g(1), of "circuit b"] by simp
    show ?thesis
      using i
      by (intro exI[of _ "[GH (nat (fst p * size_b b + snd p)),
            GCX (nat (fst p * size_b b + snd p)) (nat (fst q * size_b b + snd q)),
            GCCX (nat (fst p * size_b b + snd p)) (nat (fst q * size_b b + snd q))
              (nat (fst r * size_b b + snd r))]"])
        (simp add: 2 entangle_gates_def case_prod_beta q0 append_gate_def
          qubit_of_position[OF g(2)] qubit_of_position[OF g(3)])
  qed
qed


lemma card_set_differs: "card (set ps) \<noteq> length ps \<longleftrightarrow> \<not> distinct ps"
  using card_distinct distinct_card by blast

lemma make_entangled_move_in_grid:
  assumes "grid_ok (size_b b) (cells b)" and "\<forall>p \<in> set ps. in_grid b p"
  shows "make_entangled_move b ps mark =
     (if length ps \<noteq> 2 \<and> length ps \<noteq> 3 then (Inr False, b)
      else if \<exists>p \<in> set ps. the_cell b p \<noteq> '' '' then (Inr False, b)
      else if \<not> distinct ps then (Inr False, b)
      else
     (case entangle_gates b (map (\<lambda>(row, col). row * size_b b + col) ps) of
        (Some e, b1) \<Rightarrow> (Inl e, b1)
      | (None, b1) \<Rightarrow>
     (case mark_cells ps (mark @ ''?'') (cells b1) of
        (Some e, cs) \<Rightarrow> (Inl e, b1\<lparr>cells := cs\<rparr>)
      | (None, cs) \<Rightarrow>
          (Inr True, b1\<lparr>cells := cs, entanglement_count := entanglement_count b1 + 1\<rparr>))))"
  unfolding make_entangled_move_def any_occupied_in_grid[OF assms(1,2)] card_set_differs
  by simp

lemma make_entangled_move_refused:
  assumes "grid_ok (size_b b) (cells b)" and "\<forall>p \<in> set ps. in_grid b p"
    and "length ps \<notin> {2, 3} \<or> (\<exists>p \<in> set ps. the_cell b p \<noteq> '' '') \<or> \<not> distinct ps"
  shows "make_entangled_move b ps mark = (Inr False, b)"
  using assms(3)
  by (auto simp add: make_entangled_move_in_grid[OF assms(1,2)])

lemma make_entangled_move_done:
  assumes "grid_ok (size_b b) (cells b)" and "\<forall>p \<in> set ps. in_grid b p"
    and "length ps = 2 \<or> length ps = 3" and "\<forall>p \<in> set ps. the_cell b p = '' ''"
    and "distinct ps"
  shows "\<exists>gs cs. make_entangled_move b ps mark
                    = (Inr True, b\<lparr>entanglement_count := entanglement_count b + 1,
                                   cells := cs, circuit := circuit b @ gs\<rparr>)
           \<and> grid_ok (size_b b) cs
           \<and> (\<forall>p. in_grid b p \<longrightarrow>
                 cs ! nat (fst p) ! nat (snd p)
                   = (if p \<in> set ps then mark @ ''?'' else the_cell b p))"
proof -
  from entangle_gates_in_grid[OF assms(2,5,3)]
  obtain gs where e: "entangle_gates b (map (\<lambda>(row, col). row * size_b b + col) ps)
                        = (None, b\<lparr>circuit := circuit b @ gs\<rparr>)" ..
  have "\<forall>p \<in> set ps. 0 \<le> fst p \<and> fst p < size_b b \<and> 0 \<le> snd p \<and> snd p < size_b b"
    using assms(2) by (simp add: in_grid_def)
  from mark_cells_in_grid[OF assms(1) this, of "mark @ ''?''"]
  obtain cs where m: "mark_cells ps (mark @ ''?'') (cells b) = (None, cs)"
    and g: "grid_ok (size_b b) cs"
    and pt: "\<forall>row col. 0 \<le> row \<and> row < size_b b \<and> 0 \<le> col \<and> col < size_b b \<longrightarrow>
               cs ! nat row ! nat col
                 = (if (row, col) \<in> set ps then mark @ ''?'' else cells b ! nat row ! nat col)"
    by blast
  have len: "length ps \<in> set [2, 3]" using assms(3) by auto
  have "make_entangled_move b ps mark
          = (Inr True, b\<lparr>entanglement_count := entanglement_count b + 1,
                         cells := cs, circuit := circuit b @ gs\<rparr>)"
    using assms(3,4,5)
    by (auto simp add: make_entangled_move_in_grid[OF assms(1,2)] e m)
  moreover have "cs ! nat (fst p) ! nat (snd p)
                   = (if p \<in> set ps then mark @ ''?'' else the_cell b p)"
    if "in_grid b p" for p
    using pt[rule_format, of "fst p" "snd p"] that by (simp add: in_grid_def the_cell_def)
  ultimately show ?thesis using g by blast
qed

text \<open>
  C7. \<^verbatim>\<open>make_entangled_move\<close> returns \<^verbatim>\<open>False\<close> and leaves the whole board (cells,
  counter and circuit) as it was whenever the number of positions is not 2 or 3. When
  all positions are on the board, it does so as well when a named cell is not empty or a
  position is named twice, and in every other case it returns \<^verbatim>\<open>True\<close>.
\<close>

theorem make_entangled_move_failure_cases:
  "(length ps \<notin> {2, 3} \<longrightarrow> make_entangled_move b ps mark = (Inr False, b))
   \<and> (grid_ok (size_b b) (cells b) \<and> (\<forall>p \<in> set ps. in_grid b p) \<longrightarrow>
        (if length ps \<notin> {2, 3} \<or> (\<exists>p \<in> set ps. the_cell b p \<noteq> '' '') \<or> \<not> distinct ps
         then make_entangled_move b ps mark = (Inr False, b)
         else fst (make_entangled_move b ps mark) = Inr True))"
proof (intro conjI impI)
  assume "length ps \<notin> {2, 3}"
  then show "make_entangled_move b ps mark = (Inr False, b)"
    by (auto simp add: make_entangled_move_def)
next
  assume a: "grid_ok (size_b b) (cells b) \<and> (\<forall>p \<in> set ps. in_grid b p)"
  then have g: "grid_ok (size_b b) (cells b)" and i: "\<forall>p \<in> set ps. in_grid b p" by simp_all
  show "if length ps \<notin> {2, 3} \<or> (\<exists>p \<in> set ps. the_cell b p \<noteq> '' '') \<or> \<not> distinct ps
        then make_entangled_move b ps mark = (Inr False, b)
        else fst (make_entangled_move b ps mark) = Inr True"
  proof (cases "length ps \<notin> {2, 3} \<or> (\<exists>p \<in> set ps. the_cell b p \<noteq> '' '') \<or> \<not> distinct ps")
    case True
    then show ?thesis using make_entangled_move_refused[OF g i] by simp
  next
    case False
    then have "length ps = 2 \<or> length ps = 3" "\<forall>p \<in> set ps. the_cell b p = '' ''"
      "distinct ps" by auto
    from make_entangled_move_done[OF g i this, of mark] False show ?thesis by auto
  qed
qed

theorem make_entangled_move_failure_cases_witness:
  "make_entangled_move board3 [(0, 0)] ''X'' = (Inr False, board3)
   \<and> make_entangled_move won_board [(0, 2), (1, 1)] ''O'' = (Inr False, won_board)
   \<and> make_entangled_move board3 [(0, 0), (0, 0)] ''X'' = (Inr False, board3)
   \<and> fst (make_entangled_move board3 [(0, 0), (0, 1)] ''X'') = Inr True"
proof -
  have g: "grid_ok (size_b board3) (cells board3)" "grid_ok (size_b won_board) (cells won_board)"
    by (simp_all add: won_board_def board3_def grid_ok_def)
  have i: "\<forall>p \<in> set [(0, 2), (1, 1)]. in_grid won_board p"
    "\<forall>p \<in> set [(0, 0), (0, 0)]. in_grid board3 p"
    "\<forall>p \<in> set [(0, 0), (0, 1)]. in_grid board3 p"
    by (simp_all add: won_board_def board3_def in_grid_def)
  have o: "\<exists>p \<in> set [(0, 2), (1, 1)]. the_cell won_board p \<noteq> '' ''"
    "\<forall>p \<in> set [(0, 0), (0, 1)]. the_cell board3 p = '' ''"
    by (simp_all add: won_board_def board3_def the_cell_def)
  have "make_entangled_move board3 [(0, 0)] ''X'' = (Inr False, board3)"
    using make_entangled_move_failure_cases [of "[(0, 0)]" board3 "''X''"] by simp
  moreover have "make_entangled_move won_board [(0, 2), (1, 1)] ''O'' = (Inr False, won_board)"
    using make_entangled_move_failure_cases [of "[(0, 2), (1, 1)]" won_board "''O''"] g i o
    by presburger
  moreover have "make_entangled_move board3 [(0, 0), (0, 0)] ''X'' = (Inr False, board3)"
    using make_entangled_move_failure_cases [of "[(0, 0), (0, 0)]" board3 "''X''"] g i
    by simp
  moreover have "fst (make_entangled_move board3 [(0, 0), (0, 1)] ''X'') = Inr True"
    using make_entangled_move_failure_cases [of "[(0, 0), (0, 1)]" board3 "''X''"] g i o
    by simp
  ultimately show ?thesis by simp
qed

text \<open>
  C6. Entangling 2 or 3 distinct empty positions of the board with a mark returns
  \<^verbatim>\<open>True\<close>; afterwards the counter is one more than before, each named cell holds the
  mark followed by \<^verbatim>\<open>'?'\<close> (a pending cell), every other cell of the board holds what it
  held, and the named cells are as many as the positions given.
\<close>

theorem make_entangled_move_effect:
  assumes "grid_ok (size_b b) (cells b)" and "\<forall>p \<in> set ps. in_grid b p"
    and "length ps = 2 \<or> length ps = 3" and "\<forall>p \<in> set ps. the_cell b p = '' ''"
    and "distinct ps"
  shows "fst (make_entangled_move b ps mark) = Inr True
       \<and> entanglement_count (snd (make_entangled_move b ps mark)) = entanglement_count b + 1
       \<and> (\<forall>p. in_grid b p \<longrightarrow>
             the_cell (snd (make_entangled_move b ps mark)) p
               = (if p \<in> set ps then mark @ ''?'' else the_cell b p))
       \<and> endswith_q (mark @ ''?'')
       \<and> card (set ps) = length ps"
proof -
  from make_entangled_move_done[OF assms, of mark]
  obtain gs cs where "make_entangled_move b ps mark
                    = (Inr True, b\<lparr>entanglement_count := entanglement_count b + 1,
                                   cells := cs, circuit := circuit b @ gs\<rparr>)"
    and "\<forall>p. in_grid b p \<longrightarrow>
                 cs ! nat (fst p) ! nat (snd p)
                   = (if p \<in> set ps then mark @ ''?'' else the_cell b p)"
    by blast
  then show ?thesis using assms(5) by (simp add: the_cell_def endswith_q_def distinct_card)
qed


theorem make_entangled_move_effect_witness:
  "fst (make_entangled_move board3 [(0, 0), (0, 1)] ''X'') = Inr True
   \<and> entanglement_count (snd (make_entangled_move board3 [(0, 0), (0, 1)] ''X'')) = 1
   \<and> the_cell (snd (make_entangled_move board3 [(0, 0), (0, 1)] ''X'')) (0, 0) = ''X?''
   \<and> the_cell (snd (make_entangled_move board3 [(0, 0), (0, 1)] ''X'')) (0, 1) = ''X?''
   \<and> the_cell (snd (make_entangled_move board3 [(0, 0), (0, 1)] ''X'')) (1, 1) = '' ''"
proof -
  have g: "grid_ok (size_b board3) (cells board3)"
    by (simp add: board3_def grid_ok_def)
  have i: "\<forall>p \<in> set [(0, 0), (0, 1)]. in_grid board3 p"
    by (simp add: board3_def in_grid_def)
  have o: "\<forall>p \<in> set [(0, 0), (0, 1)]. the_cell board3 p = '' ''"
    by (simp add: board3_def the_cell_def)
  have d: "length [(0::int, 0::int), (0, 1)] = 2 \<or> length [(0::int, 0::int), (0, 1)] = 3"
    "distinct [(0::int, 0::int), (0, 1)]"
    by simp_all
  have p: "in_grid board3 (0, 0)" "in_grid board3 (0, 1)" "in_grid board3 (1, 1)"
    by (simp_all add: board3_def in_grid_def)
  have c: "entanglement_count board3 = 0" "the_cell board3 (1, 1) = '' ''"
    by (simp_all add: board3_def the_cell_def)
  from make_entangled_move_effect [OF g i d(1) o d(2), of "''X''"] p c
  show ?thesis by simp
qed

section \<open>Collapse\<close>

lemma max_from_mem: "max_from best rest \<in> set (best # rest)"
  by (induction rest arbitrary: best) auto

lemma max_from_ge: "snd best \<le> snd (max_from best rest)"
proof (induction rest arbitrary: best)
  case Nil
  then show ?case by simp
next
  case (Cons kw rest)
  have "snd best \<le> snd (if snd best < snd kw then kw else best)" by simp
  also have "\<dots> \<le> snd (max_from (if snd best < snd kw then kw else best) rest)"
    by (rule Cons.IH)
  finally show ?case by simp
qed

lemma max_from_greatest: "kw \<in> set (best # rest) \<Longrightarrow> snd kw \<le> snd (max_from best rest)"
proof (induction rest arbitrary: best)
  case Nil
  then show ?case by simp
next
  case (Cons x rest)
  let ?m = "if snd best < snd x then x else best"
  from Cons.prems consider "kw = best" | "kw = x" | "kw \<in> set rest" by auto
  then show ?case
  proof cases
    case 1
    have "snd best \<le> snd ?m" by simp
    also have "\<dots> \<le> snd (max_from ?m rest)" by (rule max_from_ge)
    finally show ?thesis by (simp add: 1)
  next
    case 2
    have "snd x \<le> snd ?m" by simp
    also have "\<dots> \<le> snd (max_from ?m rest)" by (rule max_from_ge)
    finally show ?thesis by (simp add: 2)
  next
    case 3
    then have "kw \<in> set (?m # rest)" by simp
    from Cons.IH[OF this] show ?thesis by simp
  qed
qed

lemma max_state_of_mode:
  assumes "counts \<noteq> []"
  shows "\<exists>k w. (k, w) \<in> set counts \<and> max_state_of counts = Inr (rev k)
           \<and> (\<forall>kw \<in> set counts. snd kw \<le> w)"
proof -
  from assms obtain kw rest where c: "counts = kw # rest" by (cases counts) auto
  let ?m = "max_from kw rest"
  have "(fst ?m, snd ?m) \<in> set counts" using max_from_mem[of kw rest] by (simp add: c)
  moreover have "max_state_of counts = Inr (rev (fst ?m))" by (simp add: max_state_of_def c)
  moreover have "\<forall>x \<in> set counts. snd x \<le> snd ?m"
    using max_from_greatest[of _ kw rest] by (simp add: c)
  ultimately show ?thesis by blast
qed

lemma position_of_flat:
  assumes "0 < size_b b" "0 \<le> i" "i < size_b b * size_b b" "in_grid b p"
  shows "p = (i div size_b b, i mod size_b b) \<longleftrightarrow> flat_index b p = i"
proof
  assume "p = (i div size_b b, i mod size_b b)"
  then show "flat_index b p = i" by (simp add: flat_index_def)
next
  assume "flat_index b p = i"
  then have "i div size_b b = fst p" "i mod size_b b = snd p"
    using assms(4) flat_div_mod[of "fst p" "size_b b" "snd p"]
    by (simp_all add: flat_index_def in_grid_def)
  then show "p = (i div size_b b, i mod size_b b)" by (simp add: prod_eq_iff)
qed

lemma collapse_cell_in_grid:
  assumes "0 < size_b b" "grid_ok (size_b b) (cells b)"
    and "0 \<le> i" "i < size_b b * size_b b"
    and "endswith_q (flat_cell b i) \<longrightarrow> i < int (length max_state)"
  shows "\<exists>cs. collapse_cell max_state b i = (None, b\<lparr>cells := cs\<rparr>)
           \<and> grid_ok (size_b b) cs
           \<and> (\<forall>p. in_grid b p \<longrightarrow>
                 cs ! nat (fst p) ! nat (snd p)
                   = (if flat_index b p = i \<and> endswith_q (the_cell b p)
                      then committed max_state i else the_cell b p))"
proof -
  let ?r = "i div size_b b" and ?c = "i mod size_b b"
  have g: "in_grid b (?r, ?c)" by (rule flat_in_grid[OF assms(1,3,4)])
  then have rc: "0 \<le> ?r" "?r < size_b b" "0 \<le> ?c" "?c < size_b b"
    by (simp_all add: in_grid_def)
  have get: "get_cell (cells b) ?r ?c = Inr (flat_cell b i)"
    using get_cell_in[OF assms(2) rc] by (simp add: flat_cell_def the_cell_def)
  show ?thesis
  proof (cases "endswith_q (flat_cell b i)")
    case False
    have "collapse_cell max_state b i = (None, b\<lparr>cells := cells b\<rparr>)"
      using assms(1) False by (simp add: collapse_cell_def get Let_def)
    moreover have "cells b ! nat (fst p) ! nat (snd p)
                     = (if flat_index b p = i \<and> endswith_q (the_cell b p)
                        then committed max_state i else the_cell b p)"
      if "in_grid b p" for p
    proof -
      have "flat_index b p = i \<longrightarrow> the_cell b p = flat_cell b i"
        using position_of_flat[OF assms(1,3,4) that] by (auto simp add: flat_cell_def)
      then show ?thesis using False by (auto simp add: the_cell_def)
    qed
    ultimately show ?thesis using assms(2) by blast
  next
    case True
    let ?cs = "(cells b)[nat ?r := (cells b ! nat ?r)[nat ?c := committed max_state i]]"
    have k: "py_index (length max_state) i = Inr (nat i)"
      using True assms(3,5) by (simp add: py_index_in)
    have set: "set_cell (cells b) ?r ?c (committed max_state i) = Inr ?cs"
      by (rule set_cell_in[OF assms(2) rc])
    have n: "nat ?r < nat (size_b b)" "nat ?c < nat (size_b b)" using rc by simp_all
    note u = grid_update[OF assms(2) n, where v = "committed max_state i"]
    have "collapse_cell max_state b i = (None, b\<lparr>cells := ?cs\<rparr>)"
      using assms(1) True set
      by (simp add: collapse_cell_def get Let_def k committed_def)
    moreover have "?cs ! nat (fst p) ! nat (snd p)
                     = (if flat_index b p = i \<and> endswith_q (the_cell b p)
                        then committed max_state i else the_cell b p)"
      if "in_grid b p" for p
    proof -
      have "nat (fst p) < nat (size_b b)" "nat (snd p) < nat (size_b b)"
        using that by (simp_all add: in_grid_def)
      from u(2)[OF this]
      have a: "?cs ! nat (fst p) ! nat (snd p)
            = (if nat (fst p) = nat ?r \<and> nat (snd p) = nat ?c
               then committed max_state i else the_cell b p)"
        by (simp add: the_cell_def)
      have "nat (fst p) = nat ?r \<and> nat (snd p) = nat ?c \<longleftrightarrow> p = (?r, ?c)"
        using that rc by (simp add: in_grid_def prod_eq_iff eq_nat_nat_iff)
      then have e: "nat (fst p) = nat ?r \<and> nat (snd p) = nat ?c \<longleftrightarrow> flat_index b p = i"
        using position_of_flat[OF assms(1,3,4) that] by simp
      have "flat_index b p = i \<longrightarrow> the_cell b p = flat_cell b i"
        using position_of_flat[OF assms(1,3,4) that] by (auto simp add: flat_cell_def)
      then show ?thesis unfolding a e using True by auto
    qed
    ultimately show ?thesis using u(1) by blast
  qed
qed


lemma committed_not_pending: "\<not> endswith_q (committed max_state i)"
  by (simp add: committed_def endswith_q_def)

lemma collapse_loop_in_grid:
  assumes "0 < size_b b" "grid_ok (size_b b) (cells b)"
    and "\<forall>i \<in> set is. 0 \<le> i \<and> i < size_b b * size_b b"
    and "nat (size_b b * size_b b) \<le> length max_state"
  shows "\<exists>cs. collapse_loop max_state is b = (None, b\<lparr>cells := cs\<rparr>)
           \<and> grid_ok (size_b b) cs
           \<and> (\<forall>p. in_grid b p \<longrightarrow>
                 cs ! nat (fst p) ! nat (snd p)
                   = (if flat_index b p \<in> set is \<and> endswith_q (the_cell b p)
                      then committed max_state (flat_index b p) else the_cell b p))"
  using assms
proof (induction "is" arbitrary: b)
  case Nil
  show ?case using Nil.prems(2)
    by (intro exI[of _ "cells b"]) (simp add: the_cell_def)
next
  case (Cons i "is")
  have i: "0 \<le> i" "i < size_b b * size_b b" using Cons.prems(3) by simp_all
  then have "endswith_q (flat_cell b i) \<longrightarrow> i < int (length max_state)"
    using Cons.prems(4) by linarith
  from collapse_cell_in_grid[OF Cons.prems(1,2) i this]
  obtain cs1 where c1: "collapse_cell max_state b i = (None, b\<lparr>cells := cs1\<rparr>)"
    and g1: "grid_ok (size_b b) cs1"
    and p1: "\<forall>p. in_grid b p \<longrightarrow>
                 cs1 ! nat (fst p) ! nat (snd p)
                   = (if flat_index b p = i \<and> endswith_q (the_cell b p)
                      then committed max_state i else the_cell b p)"
    by blast
  let ?b1 = "b\<lparr>cells := cs1\<rparr>"
  have "\<exists>cs. collapse_loop max_state is ?b1 = (None, ?b1\<lparr>cells := cs\<rparr>)
           \<and> grid_ok (size_b ?b1) cs
           \<and> (\<forall>p. in_grid ?b1 p \<longrightarrow>
                 cs ! nat (fst p) ! nat (snd p)
                   = (if flat_index ?b1 p \<in> set is \<and> endswith_q (the_cell ?b1 p)
                      then committed max_state (flat_index ?b1 p) else the_cell ?b1 p))"
    using Cons.prems g1 by (intro Cons.IH) simp_all
  then obtain cs where l: "collapse_loop max_state is ?b1 = (None, b\<lparr>cells := cs\<rparr>)"
    and g: "grid_ok (size_b b) cs"
    and p: "\<forall>p. in_grid b p \<longrightarrow>
                 cs ! nat (fst p) ! nat (snd p)
                   = (if flat_index b p \<in> set is
                         \<and> endswith_q (cs1 ! nat (fst p) ! nat (snd p))
                      then committed max_state (flat_index b p)
                      else cs1 ! nat (fst p) ! nat (snd p))"
    by (auto simp add: in_grid_def flat_index_def the_cell_def)
  have "cs ! nat (fst q) ! nat (snd q)
          = (if flat_index b q \<in> set (i # is) \<and> endswith_q (the_cell b q)
             then committed max_state (flat_index b q) else the_cell b q)"
    if q: "in_grid b q" for q
    using p[rule_format, OF q] p1[rule_format, OF q] committed_not_pending[of max_state i]
    by auto
  moreover have "collapse_loop max_state (i # is) b = (None, b\<lparr>cells := cs\<rparr>)"
    by (simp add: c1 l)
  ultimately show ?case using g by blast
qed

lemma collapse_loop_idle:
  assumes "0 < size_b b" "grid_ok (size_b b) (cells b)"
    and "\<forall>i \<in> set is. 0 \<le> i \<and> i < size_b b * size_b b \<and> \<not> endswith_q (flat_cell b i)"
  shows "collapse_loop max_state is b = (None, b)"
  using assms(3)
proof (induction "is")
  case Nil
  then show ?case by simp
next
  case (Cons i "is")
  then have i: "0 \<le> i" "i < size_b b * size_b b" and n: "\<not> endswith_q (flat_cell b i)"
    by simp_all
  have "in_grid b (i div size_b b, i mod size_b b)" by (rule flat_in_grid[OF assms(1) i])
  then have "get_cell (cells b) (i div size_b b) (i mod size_b b) = Inr (flat_cell b i)"
    unfolding flat_cell_def the_cell_def fst_conv snd_conv
    by (intro get_cell_in[OF assms(2)]) (simp_all add: in_grid_def)
  then have "collapse_cell max_state b i = (None, b)"
    using assms(1) n by (simp add: collapse_cell_def Let_def)
  then show ?case using Cons by simp
qed

lemma collapse_board_with:
  assumes "0 < size_b b" "grid_ok (size_b b) (cells b)"
    and "max_state_of counts = Inr max_state"
    and "nat (size_b b * size_b b) \<le> length max_state"
  shows "\<exists>cs. collapse_board b counts
                 = (Inr counts, b\<lparr>entanglement_count := 0, cells := cs,
                                  circuit := circuit b @ [GBarrier, GMeasure]\<rparr>)
           \<and> grid_ok (size_b b) cs
           \<and> (\<forall>p. in_grid b p \<longrightarrow>
                 cs ! nat (fst p) ! nat (snd p)
                   = (if endswith_q (the_cell b p)
                      then committed max_state (flat_index b p) else the_cell b p))"
proof -
  let ?b1 = "b\<lparr>circuit := circuit b @ [GBarrier, GMeasure]\<rparr>"
  let ?is = "py_range1 (size_b b * size_b b)"
  have r: "\<forall>i \<in> set ?is. 0 \<le> i \<and> i < size_b ?b1 * size_b ?b1"
    by (simp add: py_range1_mem)
  have "\<exists>cs. collapse_loop max_state ?is ?b1 = (None, ?b1\<lparr>cells := cs\<rparr>)
           \<and> grid_ok (size_b ?b1) cs
           \<and> (\<forall>p. in_grid ?b1 p \<longrightarrow>
                 cs ! nat (fst p) ! nat (snd p)
                   = (if flat_index ?b1 p \<in> set ?is \<and> endswith_q (the_cell ?b1 p)
                      then committed max_state (flat_index ?b1 p) else the_cell ?b1 p))"
    using assms r by (intro collapse_loop_in_grid) simp_all
  then obtain cs where l: "collapse_loop max_state ?is ?b1 = (None, ?b1\<lparr>cells := cs\<rparr>)"
    and g: "grid_ok (size_b b) cs"
    and p: "\<forall>p. in_grid b p \<longrightarrow>
                 cs ! nat (fst p) ! nat (snd p)
                   = (if flat_index b p \<in> set ?is \<and> endswith_q (the_cell b p)
                      then committed max_state (flat_index b p) else the_cell b p)"
    by (auto simp add: in_grid_def flat_index_def the_cell_def)
  have "flat_index b q \<in> set ?is" if "in_grid b q" for q
  proof -
    have "0 \<le> flat_index b q" "flat_index b q < size_b b * size_b b"
      using that flat_index_bound[of "fst q" "size_b b" "snd q"]
      by (simp_all add: in_grid_def flat_index_def)
    then show ?thesis by (simp add: py_range1_mem)
  qed
  then have "\<forall>p. in_grid b p \<longrightarrow>
                 cs ! nat (fst p) ! nat (snd p)
                   = (if endswith_q (the_cell b p)
                      then committed max_state (flat_index b p) else the_cell b p)"
    using p by simp
  moreover have "collapse_board b counts
                 = (Inr counts, b\<lparr>entanglement_count := 0, cells := cs,
                                  circuit := circuit b @ [GBarrier, GMeasure]\<rparr>)"
    by (simp add: collapse_board_def Let_def assms(3) l)
  ultimately show ?thesis using g by blast
qed


text \<open>
  C1. On a well-formed board, with a non-empty dictionary of counts:
  if every key has one character per cell, \<^verbatim>\<open>collapse_board\<close> returns the counts, the
  counter is 0 afterwards, every cell that ended in \<^verbatim>\<open>'?'\<close> holds X when its character
  of the chosen state is \<^verbatim>\<open>'1'\<close> and O otherwise, and every other cell of the board
  holds what it held. If no cell ends in \<^verbatim>\<open>'?'\<close>, the call does not fail whatever the
  keys are: it appends the barrier and the measurement to the circuit, sets the counter to
  0 and changes nothing else.
\<close>

theorem collapse_board_effect:
  assumes "wf_board b" and "counts \<noteq> []"
  shows "((\<forall>kw \<in> set counts. length (fst kw) = nat (size_b b * size_b b)) \<longrightarrow>
           (\<exists>max_state. max_state_of counts = Inr max_state
              \<and> fst (collapse_board b counts) = Inr counts
              \<and> entanglement_count (snd (collapse_board b counts)) = 0
              \<and> (\<forall>p. in_grid b p \<longrightarrow>
                    the_cell (snd (collapse_board b counts)) p
                      = (if endswith_q (the_cell b p)
                         then committed max_state (flat_index b p) else the_cell b p))))
       \<and> ((\<forall>row \<in> set (cells b). \<forall>c \<in> set row. \<not> endswith_q c) \<longrightarrow>
            collapse_board b counts
              = (Inr counts, b\<lparr>circuit := circuit b @ [GBarrier, GMeasure],
                               entanglement_count := 0\<rparr>))"
proof (intro conjI impI)
  have pos: "0 < size_b b" and g: "grid_ok (size_b b) (cells b)"
    using assms(1) by (simp_all add: wf_board_def)
  from max_state_of_mode[OF assms(2)]
  obtain k w where k: "(k, w) \<in> set counts" and m: "max_state_of counts = Inr (rev k)"
    by blast
  {
    assume "\<forall>kw \<in> set counts. length (fst kw) = nat (size_b b * size_b b)"
    then have "nat (size_b b * size_b b) \<le> length (rev k)" using k by auto
    from collapse_board_with[OF pos g m this]
    obtain cs where "collapse_board b counts
                 = (Inr counts, b\<lparr>entanglement_count := 0, cells := cs,
                                  circuit := circuit b @ [GBarrier, GMeasure]\<rparr>)"
      and "\<forall>p. in_grid b p \<longrightarrow>
                 cs ! nat (fst p) ! nat (snd p)
                   = (if endswith_q (the_cell b p)
                      then committed (rev k) (flat_index b p) else the_cell b p)"
      by blast
    then have "max_state_of counts = Inr (rev k)
              \<and> fst (collapse_board b counts) = Inr counts
              \<and> entanglement_count (snd (collapse_board b counts)) = 0
              \<and> (\<forall>p. in_grid b p \<longrightarrow>
                    the_cell (snd (collapse_board b counts)) p
                      = (if endswith_q (the_cell b p)
                         then committed (rev k) (flat_index b p) else the_cell b p))"
      using m by (simp add: the_cell_def)
    then show "\<exists>max_state. max_state_of counts = Inr max_state
              \<and> fst (collapse_board b counts) = Inr counts
              \<and> entanglement_count (snd (collapse_board b counts)) = 0
              \<and> (\<forall>p. in_grid b p \<longrightarrow>
                    the_cell (snd (collapse_board b counts)) p
                      = (if endswith_q (the_cell b p)
                         then committed max_state (flat_index b p) else the_cell b p))"
      by blast
  }
  {
    assume n: "\<forall>row \<in> set (cells b). \<forall>c \<in> set row. \<not> endswith_q c"
    let ?b1 = "b\<lparr>circuit := circuit b @ [GBarrier, GMeasure]\<rparr>"
    have "\<not> endswith_q (flat_cell b i)" if "0 \<le> i" "i < size_b b * size_b b" for i
      using flat_cell_in_grid[OF assms(1) that] n by blast
    then have "\<forall>i \<in> set (py_range1 (size_b ?b1 * size_b ?b1)).
                 0 \<le> i \<and> i < size_b ?b1 * size_b ?b1 \<and> \<not> endswith_q (flat_cell ?b1 i)"
      by (simp add: py_range1_mem flat_cell_def the_cell_def)
    then have "collapse_loop (rev k) (py_range1 (size_b ?b1 * size_b ?b1)) ?b1 = (None, ?b1)"
      using pos g by (intro collapse_loop_idle) simp_all
    then show "collapse_board b counts
              = (Inr counts, b\<lparr>circuit := circuit b @ [GBarrier, GMeasure],
                               entanglement_count := 0\<rparr>)"
      by (simp add: collapse_board_def Let_def m)
  }
qed

theorem collapse_board_effect_witness:
  "fst (collapse_board pair_board [(''000000011'', 530), (''000000000'', 494)])
     = Inr [(''000000011'', 530), (''000000000'', 494)]
   \<and> entanglement_count
       (snd (collapse_board pair_board [(''000000011'', 530), (''000000000'', 494)])) = 0
   \<and> the_cell (snd (collapse_board pair_board [(''000000011'', 530), (''000000000'', 494)]))
       (0, 1) = ''X''
   \<and> the_cell (snd (collapse_board pair_board [(''000000011'', 530), (''000000000'', 494)]))
       (1, 1) = ''O''
   \<and> collapse_board board3 [(''000000000'', 1024)]
       = (Inr [(''000000000'', 1024)],
          board3\<lparr>circuit := circuit board3 @ [GBarrier, GMeasure],
                 entanglement_count := 0\<rparr>)"
proof -
  let ?counts = "[(''000000011'', 530), (''000000000'', 494)]"
  have w: "wf_board pair_board" "wf_board board3"
    by (simp_all add: wf_board_def grid_ok_def lines_ok_def pair_board_def board3_def)
  have l: "\<forall>kw \<in> set ?counts. length (fst kw) = nat (size_b pair_board * size_b pair_board)"
    by (simp add: pair_board_def board3_def)
  have m: "max_state_of ?counts = Inr ''110000000''"
    by (simp add: max_state_of_def)
  have p: "in_grid pair_board (0, 1)" "in_grid pair_board (1, 1)"
    "endswith_q (the_cell pair_board (0, 1))" "the_cell pair_board (1, 1) = ''O''"
    "flat_index pair_board (0, 1) = 1"
    by (simp_all add: in_grid_def pair_board_def board3_def the_cell_def endswith_q_def
        flat_index_def)
  have n: "\<forall>row \<in> set (cells board3). \<forall>c \<in> set row. \<not> endswith_q c"
    by (simp add: board3_def endswith_q_def)
  have c: "committed ''110000000'' 1 = ''X''" by (simp add: committed_def)
  have e: "\<not> endswith_q ''O''" by (simp add: endswith_q_def)
  from collapse_board_effect[OF w(1), of ?counts] l m p c e
  have "fst (collapse_board pair_board ?counts) = Inr ?counts
   \<and> entanglement_count (snd (collapse_board pair_board ?counts)) = 0
   \<and> the_cell (snd (collapse_board pair_board ?counts)) (0, 1) = ''X''
   \<and> the_cell (snd (collapse_board pair_board ?counts)) (1, 1) = ''O''"
    by auto
  moreover from collapse_board_effect[OF w(2), of "[(''000000000'', 1024)]"] n
  have "collapse_board board3 [(''000000000'', 1024)]
       = (Inr [(''000000000'', 1024)],
          board3\<lparr>circuit := circuit board3 @ [GBarrier, GMeasure],
                 entanglement_count := 0\<rparr>)"
    by simp
  ultimately show ?thesis by simp
qed


text \<open>
  C3, as the code has it. The board draws nothing itself: from the counts the simulator
  returns it takes a key with the largest count (\<^verbatim>\<open>max(counts, key=counts.get)\<close>, "the
  state with the highest probability"), reverses it, and commits character \<open>i\<close> of the
  reversed key to the pending cell with flat index \<open>i\<close>.
\<close>

theorem collapse_board_commits_mode:
  assumes "wf_board b" and "counts \<noteq> []"
    and "\<forall>kw \<in> set counts. length (fst kw) = nat (size_b b * size_b b)"
  shows "\<exists>k w. (k, w) \<in> set counts \<and> (\<forall>kw \<in> set counts. snd kw \<le> w)
           \<and> max_state_of counts = Inr (rev k)
           \<and> (\<forall>p. in_grid b p \<longrightarrow>
                 the_cell (snd (collapse_board b counts)) p
                   = (if endswith_q (the_cell b p)
                      then committed (rev k) (flat_index b p) else the_cell b p))"
proof -
  have pos: "0 < size_b b" and g: "grid_ok (size_b b) (cells b)"
    using assms(1) by (simp_all add: wf_board_def)
  from max_state_of_mode[OF assms(2)]
  obtain k w where k: "(k, w) \<in> set counts" and m: "max_state_of counts = Inr (rev k)"
    and top: "\<forall>kw \<in> set counts. snd kw \<le> w"
    by blast
  have "nat (size_b b * size_b b) \<le> length (rev k)" using k assms(3) by auto
  from collapse_board_with[OF pos g m this]
  obtain cs where "collapse_board b counts
                 = (Inr counts, b\<lparr>entanglement_count := 0, cells := cs,
                                  circuit := circuit b @ [GBarrier, GMeasure]\<rparr>)"
    and "\<forall>p. in_grid b p \<longrightarrow>
                 cs ! nat (fst p) ! nat (snd p)
                   = (if endswith_q (the_cell b p)
                      then committed (rev k) (flat_index b p) else the_cell b p)"
    by blast
  then have "\<forall>p. in_grid b p \<longrightarrow>
                 the_cell (snd (collapse_board b counts)) p
                   = (if endswith_q (the_cell b p)
                      then committed (rev k) (flat_index b p) else the_cell b p)"
    by (simp add: the_cell_def)
  then show ?thesis using k m top by blast
qed

theorem collapse_board_commits_mode_witness:
  "the_cell (snd (collapse_board pair_board bell_counts)) (0, 0) = ''O''"
proof -
  have w: "wf_board pair_board"
    by (simp add: wf_board_def grid_ok_def lines_ok_def pair_board_def board3_def)
  have n: "bell_counts \<noteq> []" by (simp add: bell_counts_def)
  have l: "\<forall>kw \<in> set bell_counts.
             length (fst kw) = nat (size_b pair_board * size_b pair_board)"
    by (simp add: bell_counts_def pair_board_def board3_def)
  from collapse_board_commits_mode[OF w n l]
  obtain k w where k: "(k, w) \<in> set bell_counts" and top: "\<forall>kw \<in> set bell_counts. snd kw \<le> w"
    and c: "\<forall>p. in_grid pair_board p \<longrightarrow>
                 the_cell (snd (collapse_board pair_board bell_counts)) p
                   = (if endswith_q (the_cell pair_board p)
                      then committed (rev k) (flat_index pair_board p)
                      else the_cell pair_board p)"
    by blast
  from k top have "k = ''000000000''" by (auto simp add: bell_counts_def)
  moreover have "in_grid pair_board (0, 0)" "endswith_q (the_cell pair_board (0, 0))"
    "flat_index pair_board (0, 0) = 0"
    by (simp_all add: in_grid_def pair_board_def board3_def the_cell_def endswith_q_def
        flat_index_def)
  ultimately show ?thesis using c by (simp add: committed_def)
qed

text \<open>
  C3, as the claim states it, fails: with counts in which the outcome 11 of the entangled
  pair has 494 of 1024 shots, the board commits the outcome 00, which has 530; the choice
  is a function of the counts, not a draw weighted by them.
\<close>

theorem collapse_board_not_sampled:
  "(''000000011'', 494) \<in> set bell_counts
   \<and> max_state_of bell_counts \<noteq> Inr (rev ''000000011'')
   \<and> cells (snd (collapse_board pair_board bell_counts))
       = [[''O'', ''O'', '' ''], ['' '', ''O'', '' ''], ['' '', '' '', '' '']]"
  by code_simp

section \<open>Invariants of the board\<close>

text \<open>
  The constructor, from size 2 on, builds a well-formed board whose cells are all empty;
  every method, whatever its arguments and whether it returns or raises, leaves the size
  and the winning lines as they were and a well-formed board well-formed; with marks X
  and O the cells stay within the five values of the data model.
\<close>

lemma py_index_less: "py_index n i = Inr k \<Longrightarrow> k < n"
  by (auto simp add: py_index_def split: if_splits)

lemma set_cell_result:
  assumes "set_cell cs row col v = Inr cs'"
  obtains r c where "r < length cs" "c < length (cs ! r)" "cs' = cs[r := (cs ! r)[c := v]]"
  using assms
  by (auto simp add: set_cell_def split: sum.splits dest: py_index_less)

lemma set_cell_grid:
  assumes "grid_ok n cs" "set_cell cs row col v = Inr cs'"
  shows "grid_ok n cs'"
proof -
  from assms(2) obtain r c where r: "r < length cs" and c: "c < length (cs ! r)"
    and e: "cs' = cs[r := (cs ! r)[c := v]]" by (rule set_cell_result)
  have "cs ! r \<in> set cs" using r by simp
  then have "length (cs ! r) = nat n" using assms(1) by (simp add: grid_ok_def)
  then have "r < nat n" "c < nat n" using r c assms(1) by (simp_all add: grid_ok_def)
  from grid_update(1)[OF assms(1) this] show ?thesis by (simp add: e)
qed

lemma set_cell_values:
  assumes "set_cell cs row col v = Inr cs'" "row' \<in> set cs'" "x \<in> set row'"
  shows "x = v \<or> (\<exists>row \<in> set cs. x \<in> set row)"
proof -
  from assms(1) obtain r c where r: "r < length cs" and c: "c < length (cs ! r)"
    and e: "cs' = cs[r := (cs ! r)[c := v]]" by (rule set_cell_result)
  have "set cs' \<subseteq> insert ((cs ! r)[c := v]) (set cs)"
    unfolding e by (rule set_update_subset_insert)
  then consider "row' = (cs ! r)[c := v]" | "row' \<in> set cs" using assms(2) by blast
  then show ?thesis
  proof cases
    case 1
    have "set ((cs ! r)[c := v]) \<subseteq> insert v (set (cs ! r))"
      by (rule set_update_subset_insert)
    then have "x = v \<or> x \<in> set (cs ! r)" using assms(3) 1 by blast
    moreover have "cs ! r \<in> set cs" using r by simp
    ultimately show ?thesis by blast
  next
    case 2
    then show ?thesis using assms(3) by blast
  qed
qed

lemma same_frame_refl: "same_frame b b"
  by (simp add: same_frame_def)

lemma cells_from_refl: "cells_from new b b"
  by (auto simp add: cells_from_def)

lemma same_frame_wf: "wf_board b \<Longrightarrow> same_frame b b' \<Longrightarrow> wf_board b'"
  by (simp add: same_frame_def wf_board_def lines_ok_def)

lemma cells_from_marks_ok:
  assumes "marks_ok b" "cells_from new b b'"
    and "new \<subseteq> set ['' '', ''X'', ''O'', ''X?'', ''O?'']"
  shows "marks_ok b'"
  unfolding marks_ok_def
proof (intro ballI)
  fix row' c assume "row' \<in> set (cells b')" "c \<in> set row'"
  then have "c \<in> new \<or> (\<exists>row \<in> set (cells b). c \<in> set row)"
    using assms(2) by (simp add: cells_from_def)
  then show "c \<in> set ['' '', ''X'', ''O'', ''X?'', ''O?'']"
    using assms(1,3) unfolding marks_ok_def by blast
qed

lemma make_classical_move_cases:
  obtains "snd (make_classical_move b row col player_mark) = b"
  | cs where "set_cell (cells b) row col player_mark = Inr cs"
      "snd (make_classical_move b row col player_mark) = b\<lparr>cells := cs\<rparr>"
  | cs g where "set_cell (cells b) row col player_mark = Inr cs"
      "snd (make_classical_move b row col player_mark) = b\<lparr>cells := cs, circuit := circuit b @ [g]\<rparr>"
proof (cases "get_cell (cells b) row col")
  case (Inl e)
  then show ?thesis using that(1) by (simp add: make_classical_move_def)
next
  case c: (Inr c)
  show ?thesis
  proof (cases "c = '' ''")
    case False
    then show ?thesis using that(1) c by (simp add: make_classical_move_def)
  next
    case True
    show ?thesis
    proof (cases "set_cell (cells b) row col player_mark")
      case (Inl e)
      then show ?thesis using that(1) c True by (simp add: make_classical_move_def)
    next
      case s: (Inr cs)
      show ?thesis
      proof (cases "qubit (b\<lparr>cells := cs\<rparr>) (row * size_b b + col)")
        case (Inl e)
        then show ?thesis using that(2)[OF s] c True s
          by (simp add: make_classical_move_def Let_def)
      next
        case (Inr q)
        then show ?thesis
          using that(3)[OF s, of "if player_mark = ''X'' then GX q else GId q"] c True s
          by (simp add: make_classical_move_def Let_def append_gate_def)
      qed
    qed
  qed
qed

lemma same_frame_cells:
  assumes "set_cell (cells b) row col v = Inr cs"
  shows "same_frame b (b\<lparr>cells := cs\<rparr>)" "same_frame b (b\<lparr>cells := cs, circuit := gs\<rparr>)"
  using set_cell_grid[OF _ assms] by (simp_all add: same_frame_def)

lemma cells_from_cells:
  assumes "set_cell (cells b) row col v = Inr cs"
  shows "cells_from {v} b (b\<lparr>cells := cs\<rparr>)" "cells_from {v} b (b\<lparr>cells := cs, circuit := gs\<rparr>)"
  using set_cell_values[OF assms] by (simp_all add: cells_from_def)

lemma make_classical_move_frame:
  "same_frame b (snd (make_classical_move b row col player_mark))"
  "cells_from {player_mark} b (snd (make_classical_move b row col player_mark))"
proof -
  show "same_frame b (snd (make_classical_move b row col player_mark))"
    by (rule make_classical_move_cases[of b row col player_mark])
      (simp_all add: same_frame_refl same_frame_cells)
  show "cells_from {player_mark} b (snd (make_classical_move b row col player_mark))"
    by (rule make_classical_move_cases[of b row col player_mark])
      (simp_all add: cells_from_refl cells_from_cells)
qed


lemma get_cell_value:
  assumes "get_cell cs row col = Inr x"
  shows "\<exists>row' \<in> set cs. x \<in> set row'"
proof -
  from assms obtain r c where "r < length cs" "c < length (cs ! r)" "x = cs ! r ! c"
    by (auto simp add: get_cell_def split: sum.splits dest: py_index_less)
  then have "cs ! r \<in> set cs" "x \<in> set (cs ! r)" by simp_all
  then show ?thesis by blast
qed

lemma make_swap_move_frame:
  "same_frame b (snd (make_swap_move b row1 col1 row2 col2))"
  by (auto simp add: make_swap_move_def append_gate_def same_frame_def
      split: sum.splits if_splits dest: set_cell_grid)

lemma make_swap_move_cells:
  "cells_from {} b (snd (make_swap_move b row1 col1 row2 col2))"
proof -
  have two: "cells_from {} b (b\<lparr>circuit := gs, cells := cs2\<rparr>)"
    if "get_cell (cells b) row1 col1 = Inr c1" "get_cell (cells b) row2 col2 = Inr c2"
      "set_cell (cells b) row1 col1 c2 = Inr cs1" "set_cell cs1 row2 col2 c1 = Inr cs2"
    for c1 c2 cs1 cs2 gs
    unfolding cells_from_def
  proof (intro ballI)
    fix row' x assume "row' \<in> set (cells (b\<lparr>circuit := gs, cells := cs2\<rparr>))" "x \<in> set row'"
    then have "x = c1 \<or> (\<exists>row \<in> set cs1. x \<in> set row)"
      using set_cell_values[OF that(4)] by simp
    then have "x = c1 \<or> x = c2 \<or> (\<exists>row \<in> set (cells b). x \<in> set row)"
      using set_cell_values[OF that(3)] by blast
    then show "x \<in> {} \<or> (\<exists>row \<in> set (cells b). x \<in> set row)"
      using get_cell_value[OF that(1)] get_cell_value[OF that(2)] by blast
  qed
  have one: "cells_from {} b (b\<lparr>circuit := gs, cells := cs1\<rparr>)"
    if "get_cell (cells b) row2 col2 = Inr c2" "set_cell (cells b) row1 col1 c2 = Inr cs1"
    for c2 cs1 gs
    unfolding cells_from_def
  proof (intro ballI)
    fix row' x assume "row' \<in> set (cells (b\<lparr>circuit := gs, cells := cs1\<rparr>))" "x \<in> set row'"
    then have "x = c2 \<or> (\<exists>row \<in> set (cells b). x \<in> set row)"
      using set_cell_values[OF that(2)] by simp
    then show "x \<in> {} \<or> (\<exists>row \<in> set (cells b). x \<in> set row)"
      using get_cell_value[OF that(1)] by blast
  qed
  have zero: "cells_from {} b (b\<lparr>circuit := gs\<rparr>)" for gs
    by (auto simp add: cells_from_def)
  show ?thesis
    by (auto simp add: make_swap_move_def append_gate_def cells_from_refl zero
        split: sum.splits if_splits intro: one two)
qed


lemma same_frame_trans: "same_frame a b \<Longrightarrow> same_frame b c \<Longrightarrow> same_frame a c"
  by (simp add: same_frame_def)

lemma cells_from_trans: "cells_from new a b \<Longrightarrow> cells_from new b c \<Longrightarrow> cells_from new a c"
  unfolding cells_from_def by blast

lemma entangle_gates_keeps:
  assumes "entangle_gates b indices = (e, b')"
  shows "size_b b' = size_b b \<and> winning_lines b' = winning_lines b \<and> cells b' = cells b
           \<and> entanglement_count b' = entanglement_count b"
  using assms
  by (auto simp add: entangle_gates_def append_gate_def split: sum.splits if_splits)

lemma mark_cells_grid:
  assumes "grid_ok n cs" "mark_cells ps v cs = (e, cs')"
  shows "grid_ok n cs'"
  using assms
proof (induction ps arbitrary: cs)
  case Nil
  then show ?case by simp
next
  case (Cons p ps)
  obtain row col where p: "p = (row, col)" by (cases p)
  show ?case
  proof (cases "set_cell cs row col v")
    case (Inl x)
    then show ?thesis using Cons.prems by (simp add: p)
  next
    case (Inr cs1)
    from set_cell_grid[OF Cons.prems(1) Inr] have "grid_ok n cs1" .
    moreover have "mark_cells ps v cs1 = (e, cs')" using Cons.prems(2) by (simp add: p Inr)
    ultimately show ?thesis by (rule Cons.IH)
  qed
qed

lemma mark_cells_values:
  assumes "mark_cells ps v cs = (e, cs')" "row' \<in> set cs'" "x \<in> set row'"
  shows "x = v \<or> (\<exists>row \<in> set cs. x \<in> set row)"
  using assms
proof (induction ps arbitrary: cs)
  case Nil
  then show ?case by auto
next
  case (Cons p ps)
  obtain row col where p: "p = (row, col)" by (cases p)
  show ?case
  proof (cases "set_cell cs row col v")
    case (Inl err)
    then show ?thesis using Cons.prems by (auto simp add: p)
  next
    case (Inr cs1)
    have "mark_cells ps v cs1 = (e, cs')" using Cons.prems(1) by (simp add: p Inr)
    from Cons.IH[OF this Cons.prems(2,3)]
    have "x = v \<or> (\<exists>row \<in> set cs1. x \<in> set row)" .
    then show ?thesis using set_cell_values[OF Inr] by blast
  qed
qed

lemma make_entangled_move_frame:
  "same_frame b (snd (make_entangled_move b positions player_mark))"
  "cells_from {player_mark @ ''?''} b (snd (make_entangled_move b positions player_mark))"
proof -
  let ?idx = "map (\<lambda>(row, col). row * size_b b + col) positions"
  obtain e b1 where g: "entangle_gates b ?idx = (e, b1)" by (cases "entangle_gates b ?idx")
  note k = entangle_gates_keeps[OF g]
  obtain e' cs where m: "mark_cells positions (player_mark @ ''?'') (cells b1) = (e', cs)"
    by (cases "mark_cells positions (player_mark @ ''?'') (cells b1)")
  have gr: "grid_ok (size_b b) (cells b) \<longrightarrow> grid_ok (size_b b) cs"
    using mark_cells_grid[OF _ m] k by simp
  have f1: "same_frame b b1" using k by (simp add: same_frame_def)
  have f2: "same_frame b (b1\<lparr>cells := cs\<rparr>)"
    "same_frame b (b1\<lparr>cells := cs, entanglement_count := entanglement_count b1 + 1\<rparr>)"
    using k gr by (simp_all add: same_frame_def)
  show "same_frame b (snd (make_entangled_move b positions player_mark))"
    using f1 f2
    by (auto simp add: make_entangled_move_def g m same_frame_refl
        split: sum.splits option.splits simp del: set_simps)
  have c1: "cells_from {player_mark @ ''?''} b b1" using k by (auto simp add: cells_from_def)
  have "cells_from {player_mark @ ''?''} b (b1\<lparr>cells := cs\<rparr>)"
    unfolding cells_from_def using mark_cells_values[OF m] k by auto
  then have c2: "cells_from {player_mark @ ''?''} b (b1\<lparr>cells := cs\<rparr>)"
    "cells_from {player_mark @ ''?''} b
       (b1\<lparr>cells := cs, entanglement_count := entanglement_count b1 + 1\<rparr>)"
    by (simp_all add: cells_from_def)
  show "cells_from {player_mark @ ''?''} b (snd (make_entangled_move b positions player_mark))"
    using c1 c2
    by (auto simp add: make_entangled_move_def g m cells_from_refl
        split: sum.splits option.splits simp del: set_simps)
qed


lemma collapse_cell_frame:
  assumes "collapse_cell max_state b i = (e, b')"
  shows "same_frame b b'" and "cells_from {''X'', ''O''} b b'"
proof -
  have c: "same_frame b (b\<lparr>cells := cs\<rparr>) \<and> cells_from {''X'', ''O''} b (b\<lparr>cells := cs\<rparr>)"
    if "set_cell (cells b) row col v = Inr cs" "v = ''X'' \<or> v = ''O''" for row col v cs
  proof -
    have "cells_from {v} b (b\<lparr>cells := cs\<rparr>)" by (rule cells_from_cells(1)[OF that(1)])
    then have "cells_from {''X'', ''O''} b (b\<lparr>cells := cs\<rparr>)"
      using that(2) unfolding cells_from_def by blast
    then show ?thesis using same_frame_cells(1)[OF that(1)] by simp
  qed
  have "same_frame b b' \<and> cells_from {''X'', ''O''} b b'"
    using assms
    by (auto simp add: collapse_cell_def Let_def same_frame_refl cells_from_refl
        split: sum.splits if_splits dest: c)
  then show "same_frame b b'" and "cells_from {''X'', ''O''} b b'" by simp_all
qed

lemma collapse_loop_frame:
  assumes "collapse_loop max_state is b = (e, b')"
  shows "same_frame b b' \<and> cells_from {''X'', ''O''} b b'"
  using assms
proof (induction "is" arbitrary: b)
  case Nil
  then show ?case by (simp add: same_frame_refl cells_from_refl)
next
  case (Cons i "is")
  obtain e1 b1 where c: "collapse_cell max_state b i = (e1, b1)"
    by (cases "collapse_cell max_state b i")
  note f = collapse_cell_frame[OF c]
  show ?case
  proof (cases e1)
    case None
    then have "collapse_loop max_state is b1 = (e, b')" using Cons.prems by (simp add: c)
    from Cons.IH[OF this] f show ?thesis
      using same_frame_trans cells_from_trans by blast
  next
    case (Some err)
    then have "b' = b1" using Cons.prems by (simp add: c)
    then show ?thesis using f by simp
  qed
qed

lemma collapse_board_frame:
  "same_frame b (snd (collapse_board b counts))"
  "cells_from {''X'', ''O''} b (snd (collapse_board b counts))"
proof -
  let ?b1 = "b\<lparr>circuit := circuit b @ [GBarrier, GMeasure]\<rparr>"
  have f1: "same_frame b ?b1" "cells_from {''X'', ''O''} b ?b1"
    by (simp_all add: same_frame_def cells_from_def) blast
  have "same_frame b (snd (collapse_board b counts))
          \<and> cells_from {''X'', ''O''} b (snd (collapse_board b counts))"
  proof (cases "max_state_of counts")
    case (Inl err)
    then show ?thesis using f1 by (simp add: collapse_board_def)
  next
    case (Inr ms)
    obtain e b2 where l: "collapse_loop ms (py_range1 (size_b ?b1 * size_b ?b1)) ?b1 = (e, b2)"
      by (cases "collapse_loop ms (py_range1 (size_b ?b1 * size_b ?b1)) ?b1")
    from collapse_loop_frame[OF l] f1
    have f2: "same_frame b b2" "cells_from {''X'', ''O''} b b2"
      using same_frame_trans cells_from_trans by blast+
    then have "same_frame b (b2\<lparr>entanglement_count := 0\<rparr>)"
      "cells_from {''X'', ''O''} b (b2\<lparr>entanglement_count := 0\<rparr>)"
      by (simp_all add: same_frame_def cells_from_def)
    then show ?thesis using f2 l
      by (cases e) (simp_all add: collapse_board_def Let_def Inr)
  qed
  then show "same_frame b (snd (collapse_board b counts))"
    and "cells_from {''X'', ''O''} b (snd (collapse_board b counts))" by simp_all
qed

lemma lines_of_grid_ok:
  assumes "2 \<le> n" "line \<in> set (lines_of_grid n)" 
  shows "line \<noteq> [] \<and> (\<forall>i \<in> set line. 0 \<le> i \<and> i < n * n)"
proof -
  have ne: "[0..<nat n] \<noteq> []" using assms(1) by simp
  have b: "0 \<le> int r * n + c \<and> int r * n + c < n * n" if "r < nat n" "0 \<le> c" "c < n" for r c
    using flat_index_bound[of "int r" n c] that by simp
  from assms(2) consider c where "0 \<le> c" "c < n" "line = column_line n c"
    | r where "0 \<le> r" "r < n" "line = row_line n r"
    | "line = diagonal n" | "line = anti_diagonal n"
    by (auto simp add: lines_of_grid_def py_range1_mem)
  then show ?thesis
  proof cases
    case 1
    then show ?thesis using ne b by (auto simp add: column_line_def)
  next
    case 2
    have "0 \<le> r * n + int c \<and> r * n + int c < n * n" if "c < nat n" for c
      using flat_index_bound[of r n "int c"] that 2 by simp
    then show ?thesis using ne 2 by (auto simp add: row_line_def)
  next
    case 3
    have "0 \<le> int k * n + int k \<and> int k * n + int k < n * n" if "k < nat n" for k
      using b[of k "int k"] that by simp
    then show ?thesis using ne 3 by (auto simp add: diagonal_def)
  next
    case 4
    have "0 \<le> int k * n + (n - 1 - int k) \<and> int k * n + (n - 1 - int k) < n * n"
      if "k < nat n" for k
      using b[of k "n - 1 - int k"] that by simp
    then show ?thesis using ne 4 by (auto simp add: anti_diagonal_def)
  qed
qed

lemma init_board_wf:
  assumes "2 \<le> n" "init_board n = Inr b"
  shows "wf_board b" and "marks_ok b"
proof -
  have b: "b = \<lparr> size_b = n, entanglement_count = 0,
                 cells = replicate (nat n) (replicate (nat n) '' ''),
                 circuit = [GReset, GBarrier],
                 winning_lines = lines_of_grid n \<rparr>"
    using assms(2) by (simp add: init_board_ok[OF assms(1)])
  have "lines_ok b" unfolding lines_ok_def using lines_of_grid_ok[OF assms(1)] by (simp add: b)
  then show "wf_board b" using assms(1) by (simp add: wf_board_def b grid_ok_def)
  show "marks_ok b" by (simp add: marks_ok_def b)
qed


lemma winning_lines_fixed:
  "winning_lines (snd (make_classical_move b row col player_mark)) = winning_lines b"
  "winning_lines (snd (make_swap_move b row1 col1 row2 col2)) = winning_lines b"
  "winning_lines (snd (make_entangled_move b positions player_mark)) = winning_lines b"
  "winning_lines (snd (collapse_board b counts)) = winning_lines b"
  using make_classical_move_frame(1)[of b row col player_mark]
    make_swap_move_frame[of b row1 col1 row2 col2]
    make_entangled_move_frame(1)[of b positions player_mark]
    collapse_board_frame(1)[of b counts]
  by (simp_all add: same_frame_def)

lemma wf_board_preserved:
  assumes "wf_board b"
  shows "wf_board (snd (make_classical_move b row col player_mark))"
    and "wf_board (snd (make_swap_move b row1 col1 row2 col2))"
    and "wf_board (snd (make_entangled_move b positions player_mark))"
    and "wf_board (snd (collapse_board b counts))"
  using assms make_classical_move_frame(1) make_swap_move_frame make_entangled_move_frame(1)
    collapse_board_frame(1)
  by (blast intro: same_frame_wf)+

lemma marks_ok_preserved:
  assumes "marks_ok b" and "player_mark = ''X'' \<or> player_mark = ''O''"
  shows "marks_ok (snd (make_classical_move b row col player_mark))"
    and "marks_ok (snd (make_swap_move b row1 col1 row2 col2))"
    and "marks_ok (snd (make_entangled_move b positions player_mark))"
    and "marks_ok (snd (collapse_board b counts))"
proof -
  have m: "{player_mark} \<subseteq> set ['' '', ''X'', ''O'', ''X?'', ''O?'']"
    "{player_mark @ ''?''} \<subseteq> set ['' '', ''X'', ''O'', ''X?'', ''O?'']"
    using assms(2) by auto
  have x: "{''X'', ''O''} \<subseteq> set ['' '', ''X'', ''O'', ''X?'', ''O?'']"
    "{} \<subseteq> set ['' '', ''X'', ''O'', ''X?'', ''O?'']"
    by simp_all
  show "marks_ok (snd (make_classical_move b row col player_mark))"
    by (rule cells_from_marks_ok[OF assms(1) make_classical_move_frame(2) m(1)])
  show "marks_ok (snd (make_swap_move b row1 col1 row2 col2))"
    by (rule cells_from_marks_ok[OF assms(1) make_swap_move_cells x(2)])
  show "marks_ok (snd (make_entangled_move b positions player_mark))"
    by (rule cells_from_marks_ok[OF assms(1) make_entangled_move_frame(2) m(2)])
  show "marks_ok (snd (collapse_board b counts))"
    by (rule cells_from_marks_ok[OF assms(1) collapse_board_frame(2) x(1)])
qed

section \<open>The choice among equal counts\<close>

text \<open>
  Among the keys with the largest count, \<^verbatim>\<open>max\<close> returns the first one in the
  dictionary's order: every item in front of the chosen one has a strictly smaller count.
\<close>

lemma max_from_first:
  "\<exists>pre post. best # rest = pre @ max_from best rest # post
     \<and> (\<forall>kw \<in> set pre. snd kw < snd (max_from best rest))"
proof (induction rest arbitrary: best)
  case Nil
  have "[best] = [] @ max_from best [] # [] \<and> (\<forall>kw \<in> set []. snd kw < snd (max_from best []))"
    by simp
  then show ?case by blast
next
  case (Cons x rest)
  define m where "m = max_from best (x # rest)"
  have m: "m = max_from (if snd best < snd x then x else best) rest" by (simp add: m_def)
  from Cons[of "if snd best < snd x then x else best"] obtain pre post where
    f: "(if snd best < snd x then x else best) # rest = pre @ m # post"
    and s: "\<forall>kw \<in> set pre. snd kw < snd m" unfolding m by blast
  have "\<exists>pre post. best # x # rest = pre @ m # post \<and> (\<forall>kw \<in> set pre. snd kw < snd m)"
  proof (cases "snd best < snd x")
    case True
    then have "best # x # rest = (best # pre) @ m # post" using f by simp
    moreover have "snd best < snd m"
      using True max_from_ge[of x rest] by (simp add: m)
    ultimately have "best # x # rest = (best # pre) @ m # post
        \<and> (\<forall>kw \<in> set (best # pre). snd kw < snd m)" using s by simp
    then show ?thesis by blast
  next
    case False
    show ?thesis
    proof (cases pre)
      case Nil
      then have "m = best" using f False by simp
      then have "best # x # rest = [] @ m # x # rest \<and> (\<forall>kw \<in> set []. snd kw < snd m)"
        by simp
      then show ?thesis by blast
    next
      case (Cons y ys)
      then have y: "y = best" and r: "rest = ys @ m # post"
        using f False by simp_all
      have "snd x \<le> snd best" using False by simp
      also have "snd best < snd m" using s Cons y by simp
      finally have "snd x < snd m" .
      moreover have "best # x # rest = (best # x # ys) @ m # post"
        using r by simp
      ultimately have "best # x # rest = (best # x # ys) @ m # post
        \<and> (\<forall>kw \<in> set (best # x # ys). snd kw < snd m)" using s Cons y by simp
      then show ?thesis by blast
    qed
  qed
  then show ?case unfolding m_def .
qed

section \<open>The example boards are reachable\<close>

text \<open>
  The scenario of the specification on the empty board of size 3: three entangling moves
  lead to the board on which the trigger fires; resolving it with the outcome in which the
  pair and the second triple read 1 and the first triple reads 0 gives X the first
  column.
\<close>

lemma scenario_board_reached:
  "make_entangled_move
     (snd (make_entangled_move
        (snd (make_entangled_move board3 [(0, 0), (0, 1)] ''X''))
        [(1, 1), (1, 2), (2, 2)] ''O''))
     [(0, 2), (1, 0), (2, 0)] ''X''
   = (Inr True, scenario_board)"
  by code_simp

lemma pair_board_reached:
  "make_entangled_move (snd (make_classical_move board3 1 1 ''O'')) [(0, 0), (0, 1)] ''X''
   = (Inr True, pair_board)"
  by code_simp

lemma scenario_resolved:
  "check_win (snd (collapse_board scenario_board [(''001001111'', 1024)])) = Inr (PStr ''X'')"
  by code_simp

end
